theory Spec2Isabelle
  imports Complex_Main "HOL-Library.Sublist"
begin

section \<open>Errors and Python primitives\<close>

text \<open>
  The exceptions the modelled functions of \<^verbatim>\<open>nixtla/nixtla_client.py\<close> can raise.
  A function that may raise returns \<open>py_error + 'a\<close>, with \<open>Inl\<close> for the exception.
\<close>

datatype py_error = ValueError string | TypeError | KeyError | ZeroDivisionError | IndexError

text \<open>
  Python's \<^verbatim>\<open>xs[a:b]\<close> for bounds \<open>0 \<le> a\<close> and \<open>0 \<le> b\<close>: the bounds are clamped to the
  length and the slice is empty when \<open>b \<le> a\<close>.
\<close>

definition slice :: "nat \<Rightarrow> nat \<Rightarrow> 'a list \<Rightarrow> 'a list" where
  "slice a b xs = take (b - a) (drop a xs)"

text \<open>
  \<^verbatim>\<open>math.ceil(n / m)\<close> on integers with \<open>m \<noteq> 0\<close> (the quotient is taken exactly; the floats
  of the source agree with it for every count below \<open>2^52\<close>).
\<close>

definition ceil_div :: "int \<Rightarrow> int \<Rightarrow> int" where
  "ceil_div n m = - ((- n) div m)"

section \<open>Request partitioner: \<^verbatim>\<open>_partition_series\<close>\<close>

text \<open>
  The \<^verbatim>\<open>series\<close> entry of a request payload. \<open>sizes\<close> holds the row count of every
  series (\<^verbatim>\<open>np.diff(indptr)\<close>). \<open>X\<close> is \<^verbatim>\<open>None\<close> or a sequence of feature rows; the key
  \<^verbatim>\<open>X_future\<close> may be missing from the dictionary (\<open>KeyAbsent\<close>), hold \<^verbatim>\<open>None\<close>
  (\<open>PyNone\<close>) or hold a sequence of feature rows.
\<close>

datatype 'a entry = KeyAbsent | PyNone | Rows "'a list list"

record 'a series =
  y :: "'a list"
  sizes :: "nat list"
  X :: "'a list list option"
  X_future :: "'a entry"

text \<open>A payload is its \<^verbatim>\<open>series\<close> entry and the remaining keys, which partitioning copies.\<close>

record ('a, 'r) payload =
  series :: "'a series"
  rest :: 'r

text \<open>
  The body of the loop for the chunk that starts at series \<open>i\<close>, with \<open>prev_size\<close> rows
  before it. Iterating over \<^verbatim>\<open>series["X_future"]\<close> raises \<^verbatim>\<open>TypeError\<close> when it is
  \<^verbatim>\<open>None\<close> and \<^verbatim>\<open>KeyError\<close> when the key is missing.
\<close>

definition part_series :: "'a series \<Rightarrow> nat \<Rightarrow> int \<Rightarrow> nat \<Rightarrow> nat \<Rightarrow> py_error + 'a series" where
  "part_series s series_per_part h i prev_size =
     (let sizes' = slice i (i + series_per_part) (sizes s);
          curr_size = sum_list sizes';
          y' = slice prev_size (prev_size + curr_size) (y s)
      in case X s of
           None \<Rightarrow>
             Inr \<lparr>y = y', sizes = sizes', X = None,
                  X_future = (if h > 0 then PyNone else KeyAbsent)\<rparr>
         | Some rows \<Rightarrow>
             (let X' = map (slice prev_size (prev_size + curr_size)) rows in
              if h > 0 then
                (case X_future s of
                   KeyAbsent \<Rightarrow> Inl KeyError
                 | PyNone \<Rightarrow> Inl TypeError
                 | Rows frows \<Rightarrow>
                     Inr \<lparr>y = y', sizes = sizes', X = Some X',
                          X_future = Rows (map (slice (i * nat h) ((i + series_per_part) * nat h)) frows)\<rparr>)
              else Inr \<lparr>y = y', sizes = sizes', X = Some X', X_future = KeyAbsent\<rparr>))"

text \<open>
  \<^verbatim>\<open>for i in range(0, n_series, series_per_part)\<close> with a positive step, threading
  \<open>prev_size\<close>; an exception in the body ends the loop. The test for a zero step is
  there for termination only: \<open>partition_series\<close> calls the loop with a positive step.
\<close>

function partition_loop ::
  "'a series \<Rightarrow> 'r \<Rightarrow> nat \<Rightarrow> int \<Rightarrow> nat \<Rightarrow> nat \<Rightarrow> py_error + ('a, 'r) payload list" where
  "partition_loop s r series_per_part h i prev_size =
     (if series_per_part = 0 \<or> length (sizes s) \<le> i then Inr []
      else
        (case part_series s series_per_part h i prev_size of
           Inl e \<Rightarrow> Inl e
         | Inr p \<Rightarrow>
             (case partition_loop s r series_per_part h (i + series_per_part)
                     (prev_size + sum_list (sizes p)) of
                Inl e \<Rightarrow> Inl e
              | Inr ps \<Rightarrow> Inr (\<lparr>series = p, rest = r\<rparr> # ps))))"
  by pat_completeness auto
termination
  by (relation "measure (\<lambda>(s, r, spp, h, i, prev). length (sizes s) - i)") auto

declare partition_loop.simps [simp del]

text \<open>
  \<^verbatim>\<open>_partition_series(payload, n_part, h)\<close>. Dividing by \<open>min(n_part, n_series) = 0\<close> raises
  \<^verbatim>\<open>ZeroDivisionError\<close>, a zero step makes \<^verbatim>\<open>range\<close> raise \<^verbatim>\<open>ValueError\<close>, and a negative
  step gives an empty range.
\<close>

definition partition_series ::
  "('a, 'r) payload \<Rightarrow> int \<Rightarrow> int \<Rightarrow> py_error + ('a, 'r) payload list" where
  "partition_series payload n_part h =
     (let s = series payload;
          n_series = int (length (sizes s));
          n_part' = min n_part n_series
      in if n_part' = 0 then Inl ZeroDivisionError
         else
           (let series_per_part = ceil_div n_series n_part'
            in if series_per_part = 0 then Inl (ValueError ''range() arg 3 must not be zero'')
               else if series_per_part < 0 then Inr []
               else partition_loop s (rest payload) (nat series_per_part) h 0 0))"

text \<open>
  The payloads on which the loop body cannot raise: when \<open>X\<close> is present and \<open>h > 0\<close>, the
  body iterates over \<^verbatim>\<open>series["X_future"]\<close>, which must then be a sequence.
\<close>

definition futr_ok :: "'a series \<Rightarrow> int \<Rightarrow> bool" where
  "futr_ok s h =
     (case X s of
        None \<Rightarrow> True
      | Some rows \<Rightarrow> (if h > 0 then (case X_future s of Rows fr \<Rightarrow> True | _ \<Rightarrow> False) else True))"

text \<open>The rows of an \<^verbatim>\<open>X_future\<close> entry, none when it holds no sequence.\<close>

definition entry_rows :: "'a entry \<Rightarrow> 'a list list" where
  "entry_rows e = (case e of Rows rows \<Rightarrow> rows | _ \<Rightarrow> [])"

text \<open>The number of rows before series \<open>i\<close>: the value of \<open>prev_size\<close> when the loop is at \<open>i\<close>.\<close>

definition rows_before :: "'a series \<Rightarrow> nat \<Rightarrow> nat" where
  "rows_before s i = sum_list (take i (sizes s))"

section \<open>Result merger: \<^verbatim>\<open>_make_partitioned_requests\<close>\<close>

text \<open>
  One partition's response. An optional key is \<open>None\<close> when the dictionary lacks it;
  \<^verbatim>\<open>intervals\<close> is always present and is \<^verbatim>\<open>None\<close> or a dictionary of arrays.
\<close>

record 'a response =
  mean :: "'a list"
  resp_sizes :: "int list option"
  anomaly :: "bool list option"
  idxs :: "int list option"
  anomaly_score :: "'a list option"
  intervals :: "(string \<times> 'a list) list option"

text \<open>
  A list comprehension whose element expression may raise: the first exception, in list
  order, ends it.
\<close>

fun sequence_sum :: "('e + 'b) list \<Rightarrow> 'e + 'b list" where
  "sequence_sum [] = Inr []"
| "sequence_sum (Inl e # _) = Inl e"
| "sequence_sum (Inr v # rs) = (case sequence_sum rs of Inl e \<Rightarrow> Inl e | Inr vs \<Rightarrow> Inr (v # vs))"

text \<open>\<^verbatim>\<open>res[k]\<close> raises \<^verbatim>\<open>KeyError\<close> when the key is missing.\<close>

definition get_key :: "'b option \<Rightarrow> py_error + 'b" where
  "get_key v = (case v of None \<Rightarrow> Inl KeyError | Some x \<Rightarrow> Inr x)"

text \<open>\<^verbatim>\<open>np.hstack\<close> of one-dimensional arrays; it raises \<^verbatim>\<open>ValueError\<close> when given none.\<close>

definition np_hstack :: "'b list list \<Rightarrow> py_error + 'b list" where
  "np_hstack arrs =
     (if arrs = [] then Inl (ValueError ''need at least one array to concatenate'')
      else Inr (concat arrs))"

text \<open>\<^verbatim>\<open>np.hstack([res[k] for res in results])\<close>\<close>

definition hstack_key :: "('r \<Rightarrow> 'b list option) \<Rightarrow> 'r list \<Rightarrow> py_error + 'b list" where
  "hstack_key f results =
     (case sequence_sum (map (\<lambda>res. get_key (f res)) results) of
        Inl e \<Rightarrow> Inl e
      | Inr arrs \<Rightarrow> np_hstack arrs)"

text \<open>\<^verbatim>\<open>[0] + [sum(p["series"]["sizes"]) for p in payloads[:-1]]\<close>\<close>

definition offsets :: "('a, 'r) payload list \<Rightarrow> int list" where
  "offsets payloads = 0 # map (\<lambda>p. int (sum_list (sizes (series p)))) (butlast payloads)"

text \<open>
  The merged \<^verbatim>\<open>idxs\<close>: each result's indices plus its offset, over
  \<^verbatim>\<open>zip(results, offsets)\<close>, stacked.
\<close>

definition merge_idxs :: "'a response list \<Rightarrow> ('a, 'r) payload list \<Rightarrow> py_error + int list" where
  "merge_idxs results payloads =
     (case sequence_sum
             (map (\<lambda>(res, offset). map_sum id (map (\<lambda>i. i + offset)) (get_key (idxs res)))
                (zip results (offsets payloads))) of
        Inl e \<Rightarrow> Inl e
      | Inr arrs \<Rightarrow> np_hstack arrs)"

text \<open>
  \<^verbatim>\<open>np.hstack([res["intervals"][k] for res in results])\<close> for one bound name \<open>k\<close>;
  subscripting \<^verbatim>\<open>None\<close> raises \<^verbatim>\<open>TypeError\<close>.
\<close>

definition hstack_interval :: "string \<Rightarrow> 'a response list \<Rightarrow> py_error + 'a list" where
  "hstack_interval k results =
     (case sequence_sum
             (map (\<lambda>res. case intervals res of
                           None \<Rightarrow> Inl TypeError
                         | Some d \<Rightarrow> get_key (map_of d k))
                results) of
        Inl e \<Rightarrow> Inl e
      | Inr arrs \<Rightarrow> np_hstack arrs)"

text \<open>A key that is merged only when the first result has it.\<close>

definition when_present :: "bool \<Rightarrow> ('e + 'b) \<Rightarrow> 'e + 'b option" where
  "when_present present merged = (if present then map_sum id Some merged else Inr None)"

text \<open>
  The merging part of \<^verbatim>\<open>_make_partitioned_requests\<close>, on the results in partition
  order (every worker stores its result at its partition's position). The keys
  \<^verbatim>\<open>weights_x\<close> and \<^verbatim>\<open>feature_contributions\<close>, which the source merges last and which
  do not enter the other keys, are left out of the response record.
\<close>

definition merge_results ::
  "'a response list \<Rightarrow> ('a, 'r) payload list \<Rightarrow> py_error + 'a response" where
  "merge_results results payloads =
     (case hstack_key (\<lambda>res. Some (mean res)) results of
        Inl e \<Rightarrow> Inl e
      | Inr mean' \<Rightarrow>
     (let first_res = hd results in
      case when_present (resp_sizes first_res \<noteq> None) (hstack_key resp_sizes results) of
        Inl e \<Rightarrow> Inl e
      | Inr sizes' \<Rightarrow>
     (case when_present (anomaly first_res \<noteq> None) (hstack_key anomaly results) of
        Inl e \<Rightarrow> Inl e
      | Inr anomaly' \<Rightarrow>
     (case when_present (idxs first_res \<noteq> None) (merge_idxs results payloads) of
        Inl e \<Rightarrow> Inl e
      | Inr idxs' \<Rightarrow>
     (case when_present (anomaly_score first_res \<noteq> None) (hstack_key anomaly_score results) of
        Inl e \<Rightarrow> Inl e
      | Inr score' \<Rightarrow>
     (case (case intervals first_res of
              None \<Rightarrow> Inr None
            | Some d \<Rightarrow>
                map_sum id Some
                  (sequence_sum
                     (map (\<lambda>k. map_sum id (\<lambda>v. (k, v)) (hstack_interval k results))
                        (map fst d)))) of
        Inl e \<Rightarrow> Inl e
      | Inr intervals' \<Rightarrow>
          Inr \<lparr>mean = mean', resp_sizes = sizes', anomaly = anomaly', idxs = idxs',
               anomaly_score = score', intervals = intervals'\<rparr>))))))"

section \<open>Transport layer: \<^verbatim>\<open>_make_request\<close> and the retry policy\<close>

text \<open>Decimal rendering of integers, as an f-string renders them.\<close>

definition digit_char :: "nat \<Rightarrow> char" where
  "digit_char d = char_of (48 + d)"

function str_nat :: "nat \<Rightarrow> string" where
  "str_nat n = (if n < 10 then [digit_char n] else str_nat (n div 10) @ [digit_char (n mod 10)])"
  by pat_completeness auto
termination
  by (relation "measure id") auto

declare str_nat.simps [simp del]

definition str_int :: "int \<Rightarrow> string" where
  "str_int i = (if i < 0 then CHR ''-'' # str_nat (nat (- i)) else str_nat (nat i))"

text \<open>A parsed JSON document, and the body an \<^verbatim>\<open>ApiError\<close> carries: text or parsed JSON.\<close>

datatype json =
    JNull | JBool bool | JNum rat | JStr string | JArr "json list" | JObj "(string \<times> json) list"

datatype body = Text string | Parsed json

text \<open>
  The exceptions of the transport layer: the classes that \<^verbatim>\<open>should_retry\<close> names (an
  exception of a subclass counts as its listed class), \<^verbatim>\<open>ApiError\<close> with its
  \<^verbatim>\<open>status_code\<close> and \<^verbatim>\<open>body\<close>, the built-in exceptions of the other sections, and any
  other exception.
\<close>

datatype exn =
    ConnectionResetError
  | httpcore_ConnectError
  | httpcore_RemoteProtocolError
  | httpx_ConnectTimeout
  | httpx_ReadError
  | httpx_RemoteProtocolError
  | httpx_ReadTimeout
  | httpx_PoolTimeout
  | httpx_WriteError
  | httpx_WriteTimeout
  | ApiError "int option" body
  | Builtin py_error
  | OtherException string

definition retriable_exceptions :: "exn list" where
  "retriable_exceptions =
     [ConnectionResetError, httpcore_ConnectError, httpcore_RemoteProtocolError,
      httpx_ConnectTimeout, httpx_ReadError, httpx_RemoteProtocolError, httpx_ReadTimeout,
      httpx_PoolTimeout, httpx_WriteError, httpx_WriteTimeout]"

definition retriable_codes :: "int list" where
  "retriable_codes = [408, 409, 429, 502, 503, 504]"

fun should_retry :: "exn \<Rightarrow> bool" where
  "should_retry (ApiError status_code b) =
     (case status_code of None \<Rightarrow> False | Some c \<Rightarrow> c \<in> set retriable_codes)"
| "should_retry exc = (exc \<in> set retriable_exceptions)"

text \<open>
  The arguments of \<^verbatim>\<open>_retry_strategy\<close>, which hands them to the retry decorator of the
  tenacity package: \<^verbatim>\<open>retry_if_exception(should_retry)\<close>, \<^verbatim>\<open>wait_fixed(retry_interval)\<close>,
  \<^verbatim>\<open>stop_after_attempt(max_retries) | stop_after_delay(max_wait_time)\<close> and
  \<^verbatim>\<open>reraise=True\<close>.
\<close>

record retry_strategy =
  max_retries :: int
  retry_interval :: int
  max_wait_time :: int

text \<open>
  Modelled from the spec: the stop condition and the retry loop of the tenacity package,
  absent from the sources. The spec: "Retry uses fixed-interval backoff, bounded by both
  a maximum attempt count and a maximum cumulative wall-clock time (whichever triggers
  first stops retrying); the final exception is re-raised unchanged", "Any other
  exception propagates immediately". \<^verbatim>\<open>stop_after_attempt(n)\<close> holds when the attempt
  number has reached \<open>n\<close>, \<^verbatim>\<open>stop_after_delay(d)\<close> when the seconds since the first call
  have reached \<open>d\<close>; the condition is asked after an attempt has failed with a retriable
  exception.
\<close>

definition stop :: "retry_strategy \<Rightarrow> nat \<Rightarrow> rat \<Rightarrow> bool" where
  "stop cfg attempt_number seconds_since_start =
     (int attempt_number \<ge> max_retries cfg \<or> seconds_since_start \<ge> of_int (max_wait_time cfg))"

text \<open>
  Modelled from the spec: the decorated call, from attempt \<open>attempt_number\<close> on. It calls
  the function and returns its result; it re-raises an exception for which
  \<^verbatim>\<open>should_retry\<close> is false; otherwise, when the stop condition holds it re-raises
  that exception, and when not it sleeps and calls again. The outcome of the \<open>k\<close>-th
  attempt is \<open>fn k\<close>, and \<open>clock k\<close> is the time in seconds between the first call and
  that outcome (it includes the sleeps). The result is the final outcome with the number
  of attempts made.
\<close>

function retry_call ::
  "retry_strategy \<Rightarrow> (nat \<Rightarrow> exn + 'r) \<Rightarrow> (nat \<Rightarrow> rat) \<Rightarrow> nat \<Rightarrow> (exn + 'r) \<times> nat" where
  "retry_call cfg fn clock attempt_number =
     (case fn attempt_number of
        Inr result \<Rightarrow> (Inr result, attempt_number)
      | Inl exc \<Rightarrow>
          if \<not> should_retry exc then (Inl exc, attempt_number)
          else if stop cfg attempt_number (clock attempt_number) then (Inl exc, attempt_number)
          else retry_call cfg fn clock (Suc attempt_number))"
  by pat_completeness auto
termination
  by (relation "measure (\<lambda>(cfg, fn, clock, k). nat (max_retries cfg) - k)")
     (auto simp: stop_def)

declare retry_call.simps [simp del]

text \<open>An HTTP request as handed to \<^verbatim>\<open>client.post\<close>, and the response it returns.\<close>

record request =
  url :: string
  content :: string
  headers :: "(string \<times> string) list"

record http_response =
  resp_status_code :: int
  resp_content :: string

text \<open>
  The first half of \<^verbatim>\<open>_make_request\<close>, up to the call of \<^verbatim>\<open>client.post\<close>, on the bytes
  \<^verbatim>\<open>orjson.dumps\<close> gave. \<open>compress threads\<close> stands for the zstd compressor at level 1.
\<close>

definition build_request ::
  "(int \<Rightarrow> string \<Rightarrow> string) \<Rightarrow> string \<Rightarrow> string \<Rightarrow> bool \<Rightarrow> exn + request" where
  "build_request compress endpoint dumped multithreaded_compress =
     (let content_size_mb = (of_nat (length dumped) :: rat) / 2 ^ 20
      in if content_size_mb > 200
         then Inl (Builtin (ValueError
                (''The payload is too large. Set num_partitions=''
                   @ str_int \<lceil>content_size_mb / 200\<rceil>)))
         else if content_size_mb > 1
         then (let threads = (if multithreaded_compress then - 1 else 0)
               in Inr \<lparr>url = endpoint, content = compress threads dumped,
                       headers = [(''content-encoding'', ''zstd'')]\<rparr>)
         else Inr \<lparr>url = endpoint, content = dumped, headers = []\<rparr>)"

text \<open>\<^verbatim>\<open>repr\<close> of a bytes object inside an f-string (escapes apart).\<close>

definition bytes_repr :: "string \<Rightarrow> string" where
  "bytes_repr bs = ''b'' @ [CHR 0x27] @ bs @ [CHR 0x27]"

text \<open>
  \<^verbatim>\<open>"data" in resp_body\<close> and \<^verbatim>\<open>resp_body["data"]\<close>: key lookup in an object, membership in
  an array, a substring test in a string (indexing a string or an array by a string then
  raises \<^verbatim>\<open>TypeError\<close>), and \<^verbatim>\<open>TypeError\<close> for the values that are no containers.
\<close>

fun unwrap_data :: "json \<Rightarrow> exn + json" where
  "unwrap_data (JObj kvs) = (case map_of kvs ''data'' of Some v \<Rightarrow> Inr v | None \<Rightarrow> Inr (JObj kvs))"
| "unwrap_data (JArr vs) =
     (if JStr ''data'' \<in> set vs then Inl (Builtin TypeError) else Inr (JArr vs))"
| "unwrap_data (JStr t) =
     (if sublist ''data'' t then Inl (Builtin TypeError) else Inr (JStr t))"
| "unwrap_data v = Inl (Builtin TypeError)"

text \<open>
  The second half of \<^verbatim>\<open>_make_request\<close>: parsing the response. \<open>loads\<close> stands for
  \<^verbatim>\<open>orjson.loads\<close>, with \<open>None\<close> for \<^verbatim>\<open>JSONDecodeError\<close>.
\<close>

definition parse_response :: "(string \<Rightarrow> json option) \<Rightarrow> http_response \<Rightarrow> exn + json" where
  "parse_response loads resp =
     (case loads (resp_content resp) of
        None \<Rightarrow>
          Inl (ApiError (Some (resp_status_code resp))
                 (Text (''Could not parse JSON: '' @ bytes_repr (resp_content resp))))
      | Some resp_body \<Rightarrow>
          if resp_status_code resp \<noteq> 200
          then Inl (ApiError (Some (resp_status_code resp)) (Parsed resp_body))
          else unwrap_data resp_body)"

text \<open>The \<^verbatim>\<open>ApiError\<close> raised for a response whose body is not JSON.\<close>

definition unparseable_error :: "http_response \<Rightarrow> exn" where
  "unparseable_error resp =
     ApiError (Some (resp_status_code resp))
       (Text (''Could not parse JSON: '' @ bytes_repr (resp_content resp)))"

text \<open>\<^verbatim>\<open>_make_request\<close>; \<open>post\<close> is \<^verbatim>\<open>client.post\<close>, which may raise.\<close>

definition make_request ::
  "(request \<Rightarrow> exn + http_response) \<Rightarrow> (string \<Rightarrow> json option) \<Rightarrow> (int \<Rightarrow> string \<Rightarrow> string)
     \<Rightarrow> string \<Rightarrow> string \<Rightarrow> bool \<Rightarrow> exn + json" where
  "make_request post loads compress endpoint dumped multithreaded_compress =
     (case build_request compress endpoint dumped multithreaded_compress of
        Inl exc \<Rightarrow> Inl exc
      | Inr req \<Rightarrow>
          (case post req of
             Inl exc \<Rightarrow> Inl exc
           | Inr resp \<Rightarrow> parse_response loads resp))"

text \<open>
  \<^verbatim>\<open>_make_request_with_retries\<close>: the decorated \<^verbatim>\<open>_make_request\<close>. The transport's answer
  may differ from attempt to attempt: \<open>post k\<close> is the transport at the \<open>k\<close>-th attempt.
\<close>

definition make_request_with_retries ::
  "retry_strategy \<Rightarrow> (nat \<Rightarrow> rat) \<Rightarrow> (nat \<Rightarrow> request \<Rightarrow> exn + http_response)
     \<Rightarrow> (string \<Rightarrow> json option) \<Rightarrow> (int \<Rightarrow> string \<Rightarrow> string)
     \<Rightarrow> string \<Rightarrow> string \<Rightarrow> bool \<Rightarrow> (exn + json) \<times> nat" where
  "make_request_with_retries cfg clock post loads compress endpoint dumped multithreaded_compress =
     retry_call cfg
       (\<lambda>k. make_request (post k) loads compress endpoint dumped multithreaded_compress)
       clock 1"

section \<open>Tail of series: \<^verbatim>\<open>_array_tails\<close> and \<^verbatim>\<open>_tail\<close>\<close>

text \<open>\<^verbatim>\<open>np.diff\<close>, \<^verbatim>\<open>np.cumsum\<close> and \<^verbatim>\<open>np.arange(a, b)\<close> on integers.\<close>

definition np_diff :: "int list \<Rightarrow> int list" where
  "np_diff xs = map (\<lambda>(b, a). b - a) (zip (tl xs) xs)"

fun cumsum_from :: "int \<Rightarrow> int list \<Rightarrow> int list" where
  "cumsum_from acc [] = []"
| "cumsum_from acc (x # xs) = (acc + x) # cumsum_from (acc + x) xs"

definition cumsum :: "int list \<Rightarrow> int list" where
  "cumsum xs = cumsum_from 0 xs"

definition arange :: "int \<Rightarrow> int \<Rightarrow> int list" where
  "arange a b = [a..b - 1]"

text \<open>
  \<^verbatim>\<open>(a > b).any()\<close> on two one-dimensional arrays: elementwise when the lengths agree,
  broadcast when one of them has length one, and \<^verbatim>\<open>ValueError\<close> for other lengths.
\<close>

definition any_greater :: "int list \<Rightarrow> int list \<Rightarrow> py_error + bool" where
  "any_greater a b =
     (if length a = length b then Inr (list_ex (\<lambda>(x, y). x > y) (zip a b))
      else if length a = 1 then Inr (list_ex (\<lambda>y. hd a > y) b)
      else if length b = 1 then Inr (list_ex (\<lambda>x. x > hd b) a)
      else Inl (ValueError ''operands could not be broadcast together''))"

text \<open>
  \<^verbatim>\<open>x[idxs]\<close> with an integer index array: a negative index counts from the end, and an
  index outside \<open>[-len, len)\<close> raises \<^verbatim>\<open>IndexError\<close>.
\<close>

definition take_idxs :: "'a list \<Rightarrow> int list \<Rightarrow> py_error + 'a list" where
  "take_idxs x is =
     (let n = int (length x)
      in if list_all (\<lambda>i. - n \<le> i \<and> i < n) is
         then Inr (map (\<lambda>i. x ! nat (if i < 0 then i + n else i)) is)
         else Inl IndexError)"

definition array_tails :: "'a list \<Rightarrow> int list \<Rightarrow> int list \<Rightarrow> py_error + 'a list" where
  "array_tails x indptr out_sizes =
     (case any_greater out_sizes (np_diff indptr) of
        Inl e \<Rightarrow> Inl e
      | Inr True \<Rightarrow> Inl (ValueError ''out_sizes must be at most the original sizes.'')
      | Inr False \<Rightarrow>
          (let ranges = map (\<lambda>(end, size). arange (end - size) end) (zip (tl indptr) out_sizes)
           in if ranges = [] then Inl (ValueError ''need at least one array to concatenate'')
              else take_idxs x (concat ranges)))"

text \<open>The fields of \<^verbatim>\<open>ufp.ProcessedDF\<close>; \<open>data\<close> holds one row per observation.\<close>

record ('u, 't, 'a) processed_df =
  uids :: "'u list"
  last_times :: "'t list"
  data :: "'a list"
  indptr :: "int list"
  sort_idxs :: "nat list option"

definition tail :: "('u, 't, 'a) processed_df \<Rightarrow> int \<Rightarrow> py_error + ('u, 't, 'a) processed_df" where
  "tail proc n =
     (let new_sizes = map (\<lambda>d. min d n) (np_diff (indptr proc));
          new_indptr = 0 # cumsum new_sizes
      in case array_tails (data proc) (indptr proc) new_sizes of
           Inl e \<Rightarrow> Inl e
         | Inr new_data \<Rightarrow>
             Inr \<lparr>uids = uids proc, last_times = last_times proc, data = new_data,
                  indptr = new_indptr, sort_idxs = None\<rparr>)"

text \<open>
  The ragged encoding of a list of series: the flat buffer is their concatenation and
  \<open>indptr\<close> is \<^verbatim>\<open>np.append(0, sizes.cumsum())\<close>.
\<close>

definition ragged_indptr :: "'a list list \<Rightarrow> int list" where
  "ragged_indptr segs = 0 # cumsum (map (\<lambda>seg. int (length seg)) segs)"

text \<open>The last \<open>k\<close> elements of a series (none when \<open>k \<le> 0\<close>).\<close>

definition last_rows :: "int \<Rightarrow> 'a list \<Rightarrow> 'a list" where
  "last_rows k seg = drop (length seg - nat k) seg"

text \<open>The index ranges \<^verbatim>\<open>_array_tails\<close> stacks, one for each series end and size.\<close>

definition tail_ranges :: "int list \<Rightarrow> int list \<Rightarrow> int list list" where
  "tail_ranges ends ks = map (\<lambda>(end, size). arange (end - size) end) (zip ends ks)"

section \<open>Input validator: the frequency check of \<^verbatim>\<open>_run_validations\<close>\<close>

text \<open>
  The branch of \<^verbatim>\<open>_run_validations\<close> for a string or integer frequency: the input table
  (its identifier and time columns, one pair per row) is compared in length with the
  table \<^verbatim>\<open>id_time_grid\<close> returns. \<^verbatim>\<open>id_time_grid\<close> belongs to the utilsforecast package
  and is a parameter here.
\<close>

definition freq_error :: string where
  "freq_error =
     ''Series contain missing or duplicate timestamps, or the timestamps do not match the provided frequency.''
     @ [CHR 0x0A]
     @ ''Please make sure that all series have a single observation from the first to the last timestamp and that the provided frequency matches the timestamps''
     @ [CHR 0x27] @ ''.'' @ [CHR 0x0A]
     @ ''You can refer to https://docs.nixtla.io/docs/tutorials-missing_values for an end to end example.''"

definition validate_freq ::
  "(('i \<times> 't) list \<Rightarrow> 'f \<Rightarrow> ('i \<times> 't) list) \<Rightarrow> ('i \<times> 't) list \<Rightarrow> 'f \<Rightarrow> py_error + unit" where
  "validate_freq grid df freq =
     (let expected_ids_times = grid df freq;
          freq_ok = (length df = length expected_ids_times)
      in if \<not> freq_ok then Inl (ValueError freq_error) else Inr ())"

text \<open>The timestamps of the rows of series \<open>u\<close>, in the order of the table.\<close>

definition times_of :: "('i \<times> 't) list \<Rightarrow> 'i \<Rightarrow> 't list" where
  "times_of df u = map snd (filter (\<lambda>row. fst row = u) df)"

text \<open>
  Modelled from the spec: \<^verbatim>\<open>id_time_grid\<close> of the utilsforecast package, absent from the
  sources, with \<^verbatim>\<open>start="per_serie"\<close> and \<^verbatim>\<open>end="per_serie"\<close>. The spec: "an idealized dense
  grid built from each series' first/last timestamp and the frequency step", computed by
  "arithmetic stepping for integer, calendar-aware stepping for string/offset types".
  Each series contributes the timestamps \<open>stepping\<close> gives from its first timestamp to its
  last one at that frequency; the stepping is a parameter, and \<open>dense_times\<close> below is the
  arithmetic stepping of an integer frequency.
\<close>

definition id_time_grid ::
  "('t \<Rightarrow> 't \<Rightarrow> 'f \<Rightarrow> 't list) \<Rightarrow> ('i \<times> 't :: linorder) list \<Rightarrow> 'f \<Rightarrow> ('i \<times> 't) list" where
  "id_time_grid stepping df freq =
     concat (map (\<lambda>u. map (\<lambda>t. (u, t))
                         (stepping (Min (set (times_of df u))) (Max (set (times_of df u))) freq))
               (remdups (map fst df)))"

text \<open>
  Modelled from the spec: the arithmetic stepping of an integer frequency, the timestamps
  from \<open>first_t\<close> in steps of \<open>freq\<close> up to \<open>last_t\<close>.
\<close>

definition dense_times :: "int \<Rightarrow> int \<Rightarrow> int \<Rightarrow> int list" where
  "dense_times first_t last_t freq =
     map (\<lambda>k. first_t + int k * freq) [0..<nat ((last_t - first_t) div freq + 1)]"

text \<open>A complete regular series of \<open>n\<close> timestamps from \<open>a\<close> in steps of \<open>freq\<close>.\<close>

definition regular_times :: "int \<Rightarrow> nat \<Rightarrow> int \<Rightarrow> int list" where
  "regular_times a n freq = map (\<lambda>k. a + int k * freq) [0..<n]"

text \<open>The same series with the timestamp at position \<open>k\<close> missing.\<close>

definition gapped_times :: "int \<Rightarrow> nat \<Rightarrow> int \<Rightarrow> nat \<Rightarrow> int list" where
  "gapped_times a n freq k = take k (regular_times a n freq) @ drop (Suc k) (regular_times a n freq)"

section \<open>Level and quantile duality\<close>

text \<open>
  Quantiles are Python floats, that is IEEE-754 doubles. A finite double is modelled by
  the rational number it denotes. An arithmetic operation on doubles returns the exact
  result rounded to the nearest double, ties to the even significand, and so does the
  reading of a decimal literal. Overflow is not modelled: the quantities below stay under
  200 in magnitude.
\<close>


















section \<open>Concrete inputs\<close>

text \<open>Five series of one row each, without exogenous features.\<close>

definition five_series :: "(int, unit) payload" where
  "five_series =
     \<lparr>series = \<lparr>y = [1, 2, 3, 4, 5], sizes = [1, 1, 1, 1, 1], X = None, X_future = KeyAbsent\<rparr>,
      rest = ()\<rparr>"

text \<open>
  Two series with one historical exogenous feature and no future exogenous features, as
  the forecast method builds the payload when only \<^verbatim>\<open>hist_exog_list\<close> is given.
\<close>

definition hist_exog_payload :: "(int, unit) payload" where
  "hist_exog_payload =
     \<lparr>series = \<lparr>y = [1, 2], sizes = [1, 1], X = Some [[5, 6]], X_future = PyNone\<rparr>,
      rest = ()\<rparr>"

text \<open>
  Three partitions of 2, 3 and 4 rows, and responses that select every row of their
  partition.
\<close>

definition three_payloads :: "(int, unit) payload list" where
  "three_payloads =
     [\<lparr>series = \<lparr>y = [10, 11], sizes = [2], X = None, X_future = KeyAbsent\<rparr>, rest = ()\<rparr>,
      \<lparr>series = \<lparr>y = [20, 21, 22], sizes = [3], X = None, X_future = KeyAbsent\<rparr>, rest = ()\<rparr>,
      \<lparr>series = \<lparr>y = [30, 31, 32, 33], sizes = [4], X = None, X_future = KeyAbsent\<rparr>, rest = ()\<rparr>]"

definition rows_response :: "int list \<Rightarrow> int response" where
  "rows_response is =
     \<lparr>mean = map (\<lambda>i. 0) is, resp_sizes = Some [int (length is)], anomaly = None,
      idxs = Some is, anomaly_score = None, intervals = None\<rparr>"

definition three_results :: "int response list" where
  "three_results = [rows_response [0, 1], rows_response [0, 1, 2], rows_response [0, 1, 2, 3]]"

text \<open>A retry strategy of three attempts, ten seconds apart, for six minutes at most.\<close>

definition three_attempts :: retry_strategy where
  "three_attempts = \<lparr>max_retries = 3, retry_interval = 10, max_wait_time = 360\<rparr>"


text \<open>A clock on which the \<open>k\<close>-th attempt ends after \<open>10 * k\<close> seconds.\<close>

definition clock10 :: "nat \<Rightarrow> rat" where
  "clock10 k = of_nat k * 10"

text \<open>
  A transport that answers every attempt with status 503 and an HTML body, a parser that
  rejects every body, and a compressor that leaves the bytes alone.
\<close>

definition html_503 :: "nat \<Rightarrow> request \<Rightarrow> exn + http_response" where
  "html_503 k req = Inr \<lparr>resp_status_code = 503, resp_content = ''<html>''\<rparr>"

definition html_404 :: "nat \<Rightarrow> request \<Rightarrow> exn + http_response" where
  "html_404 k req = Inr \<lparr>resp_status_code = 404, resp_content = ''<html>''\<rparr>"

definition no_json :: "string \<Rightarrow> json option" where
  "no_json bs = None"

definition no_compress :: "int \<Rightarrow> string \<Rightarrow> string" where
  "no_compress threads bs = bs"

text \<open>A transport that is never reached without raising.\<close>

definition unreachable_post :: "request \<Rightarrow> exn + http_response" where
  "unreachable_post req = Inl (OtherException ''sent'')"

text \<open>
  Two complete series with step 1; the same table with the timestamp 3 of the first series
  missing; a table with a gap in each series; and the table with the gap of the first
  series and the last timestamp of the second one twice.
\<close>

definition two_complete :: "(nat \<times> int) list" where
  "two_complete = [(1, 1), (1, 2), (1, 3), (1, 4), (2, 10), (2, 11)]"

definition one_gap :: "(nat \<times> int) list" where
  "one_gap = [(1, 1), (1, 2), (1, 4), (2, 10), (2, 11)]"

definition two_gaps :: "(nat \<times> int) list" where
  "two_gaps = [(1, 1), (1, 2), (1, 4), (2, 10), (2, 12)]"

definition gap_and_duplicate :: "(nat \<times> int) list" where
  "gap_and_duplicate = [(1, 1), (1, 2), (1, 4), (2, 10), (2, 11), (2, 11)]"

text \<open>Three series of 3, 2 and 3 rows in one buffer.\<close>

definition three_segs :: "string list" where
  "three_segs = [''abc'', ''de'', ''fgh'']"


section \<open>Properties of the partitioner\<close>

lemma part_series_ok:
  assumes "futr_ok s h"
  shows "\<exists>p. part_series s spp h i prev = Inr p \<and> sizes p = slice i (i + spp) (sizes s)"
  using assms
  by (auto simp: part_series_def futr_ok_def Let_def split: option.splits entry.splits)

lemma slice_nonempty: "i < length xs \<Longrightarrow> 0 < k \<Longrightarrow> slice i (i + k) xs \<noteq> []"
  by (simp add: slice_def)

lemma chunk_count_step:
  fixes d k :: nat
  assumes "0 < d" and "0 < k"
  shows "(k + d - 1) div d = Suc ((k - d + d - 1) div d)"
proof (cases "k \<le> d")
  case True
  have "d \<le> k + d - 1" "k + d - 1 < 2 * d" using True assms by simp_all
  then have "(k + d - 1) div d = 1"
    by (intro div_nat_eqI) simp_all
  moreover have "(k - d + d - 1) div d = 0" using True assms by simp
  ultimately show ?thesis by simp
next
  case False
  define j where "j = k - d + d - 1"
  have "k + d - 1 = j + d" using False assms by (simp add: j_def)
  moreover have "(j + d) div d = Suc (j div d)" using assms(1) div_add_self2[of d j] by simp
  ultimately show ?thesis unfolding j_def by presburger
qed

lemma partition_loop_length:
  assumes "0 < spp" and "futr_ok s h"
  shows "\<exists>ps. partition_loop s r spp h i prev = Inr ps
           \<and> length ps = (length (sizes s) - i + spp - 1) div spp
           \<and> (\<forall>p \<in> set ps. sizes (series p) \<noteq> [])"
  using assms
proof (induction s r spp h i prev rule: partition_loop.induct)
  case (1 s r spp h i prev)
  show ?case
  proof (cases "length (sizes s) \<le> i")
    case True
    then show ?thesis using "1.prems" by (simp add: partition_loop.simps)
  next
    case False
    obtain p where p: "part_series s spp h i prev = Inr p" "sizes p = slice i (i + spp) (sizes s)"
      using part_series_ok[OF "1.prems"(2)] by blast
    have ne: "sizes p \<noteq> []" using p(2) False "1.prems"(1) by (simp add: slice_nonempty)
    from "1.IH"[OF _ p(1)] False "1.prems"
    obtain ps where ps: "partition_loop s r spp h (i + spp) (prev + sum_list (sizes p)) = Inr ps"
        "length ps = (length (sizes s) - (i + spp) + spp - 1) div spp"
        "\<forall>p \<in> set ps. sizes (series p) \<noteq> []"
      by auto
    have "partition_loop s r spp h i prev = Inr (\<lparr>series = p, rest = r\<rparr> # ps)"
      using False "1.prems"(1) p(1) ps(1) by (subst partition_loop.simps) simp
    moreover have "Suc ((length (sizes s) - (i + spp) + spp - 1) div spp) = (length (sizes s) - i + spp - 1) div spp"
      using chunk_count_step[of spp "length (sizes s) - i"] False "1.prems"(1) by simp
    ultimately show ?thesis using ps ne by simp
  qed
qed

lemma ceil_div_pos:
  assumes "0 < m"
  shows "ceil_div n m = (n + m - 1) div m"
proof -
  define q where "q = n div m"
  define r where "r = n mod m"
  have n: "n = m * q + r" and r: "0 \<le> r" "r < m"
    using assms by (simp_all add: q_def r_def)
  show ?thesis
  proof (cases "r = 0")
    case True
    have "(n + m - 1) div m = q"
      by (rule int_div_pos_eq[where r = "m - 1"]) (use n True assms in simp_all)
    moreover have "(- n) div m = - q"
      by (rule int_div_pos_eq[where r = 0]) (use n True assms in simp_all)
    ultimately show ?thesis by (simp add: ceil_div_def)
  next
    case False
    have "(n + m - 1) div m = q + 1"
      by (rule int_div_pos_eq[where r = "r - 1"]) (use n False r assms in \<open>simp_all add: algebra_simps\<close>)
    moreover have "(- n) div m = - q - 1"
      by (rule int_div_pos_eq[where r = "m - r"]) (use n False r assms in \<open>simp_all add: algebra_simps\<close>)
    ultimately show ?thesis by (simp add: ceil_div_def)
  qed
qed

lemma ceil_div_nat:
  assumes "0 < d"
  shows "ceil_div (int k) (int d) = int ((k + d - 1) div d)"
proof -
  have "ceil_div (int k) (int d) = (int k + int d - 1) div int d"
    using assms by (simp add: ceil_div_pos)
  also have "int k + int d - 1 = int (k + d - 1)" using assms by simp
  finally show ?thesis by (simp add: zdiv_int)
qed

lemma ceil_div_ge1: "0 < n \<Longrightarrow> 0 < m \<Longrightarrow> 1 \<le> ceil_div n m"
proof -
  assume a: "0 < n" "0 < m"
  then have "m \<le> n + m - 1" by simp
  then have "0 < (n + m - 1) div m" using a(2) by (simp add: pos_imp_zdiv_pos_iff)
  then show ?thesis using a by (simp add: ceil_div_pos)
qed

text \<open>
  Claim C10. For a payload with \<open>n \<ge> 1\<close> series and \<open>n_part \<ge> 1\<close> on which the loop body does
  not raise, \<^verbatim>\<open>_partition_series\<close> returns exactly
  \<open>ceil(n / ceil(n / min(n_part, n)))\<close> sub-payloads, each with at least one series. The
  count can be strictly smaller than \<open>min(n_part, n)\<close>: five series with \<open>n_part = 4\<close> give
  three sub-payloads.
\<close>

theorem partition_series_count:
  assumes "1 \<le> length (sizes (series payload))"
    and "1 \<le> n_part"
    and "futr_ok (series payload) h"
  shows "\<exists>parts. partition_series payload n_part h = Inr parts
           \<and> int (length parts)
               = ceil_div (int (length (sizes (series payload))))
                   (ceil_div (int (length (sizes (series payload))))
                      (min n_part (int (length (sizes (series payload))))))
           \<and> (\<forall>p \<in> set parts. 1 \<le> length (sizes (series p)))
           \<and> (\<exists>parts5. partition_series five_series 4 0 = Inr parts5
                 \<and> length parts5 = 3 \<and> length parts5 < min 4 (length (sizes (series five_series))))"
proof -
  define n where "n = length (sizes (series payload))"
  define m where "m = min n_part (int n)"
  define spp where "spp = ceil_div (int n) m"
  have m: "1 \<le> m" using assms(1,2) by (simp add: m_def n_def)
  have spp: "1 \<le> spp"
  proof -
    have "0 < int n" using assms(1) unfolding n_def by linarith
    moreover have "0 < m" using m by simp
    ultimately show ?thesis unfolding spp_def by (rule ceil_div_ge1)
  qed
  obtain ps where ps: "partition_loop (series payload) (rest payload) (nat spp) h 0 0 = Inr ps"
      "length ps = (length (sizes (series payload)) - 0 + nat spp - 1) div nat spp"
      "\<forall>p \<in> set ps. sizes (series p) \<noteq> []"
    using partition_loop_length[of "nat spp" "series payload" h "rest payload" 0 0] spp assms(3)
    by auto
  have run: "partition_series payload n_part h = Inr ps"
    using ps(1) m spp by (simp add: partition_series_def Let_def m_def[symmetric] n_def[symmetric] spp_def[symmetric])
  have "int (length ps) = int ((n + nat spp - 1) div nat spp)"
    using ps(2) by (simp add: n_def)
  also have "\<dots> = ceil_div (int n) (int (nat spp))"
    using spp by (subst ceil_div_nat) simp_all
  also have "\<dots> = ceil_div (int n) spp" using spp by simp
  finally have cnt: "int (length ps) = ceil_div (int n) (ceil_div (int n) (min n_part (int n)))"
    by (simp add: spp_def m_def)
  have ne: "\<forall>p \<in> set ps. 1 \<le> length (sizes (series p))"
    using ps(3) by (auto simp: Suc_le_eq)
  have ex5: "\<exists>parts5. partition_series five_series 4 0 = Inr parts5
                 \<and> length parts5 = 3 \<and> length parts5 < min 4 (length (sizes (series five_series)))"
    by (simp add: five_series_def partition_series_def ceil_div_def partition_loop.simps
          part_series_def slice_def)
  show ?thesis using run cnt ne ex5 unfolding n_def by blast
qed

theorem partition_series_count_witness:
  "\<exists>parts. partition_series five_series 4 0 = Inr parts
     \<and> int (length parts) = 3
     \<and> (\<forall>p \<in> set parts. 1 \<le> length (sizes (series p)))"
proof -
  have a: "1 \<le> length (sizes (series five_series))" by (simp add: five_series_def)
  have b: "(1::int) \<le> 4" by simp
  have c: "futr_ok (series five_series) 0" by (simp add: five_series_def futr_ok_def)
  have d: "ceil_div (int (length (sizes (series five_series))))
             (ceil_div (int (length (sizes (series five_series))))
                (min 4 (int (length (sizes (series five_series)))))) = 3"
    by (simp add: five_series_def ceil_div_def)
  from partition_series_count[OF a b c] d show ?thesis by auto
qed

lemma slice_append_drop: "a \<le> b \<Longrightarrow> slice a b xs @ drop b xs = drop a xs"
proof -
  assume "a \<le> b"
  then have "drop b xs = drop (b - a) (drop a xs)" by simp
  then show ?thesis unfolding slice_def by (metis append_take_drop_id)
qed

lemma rows_before_step:
  "rows_before s (i + k) = rows_before s i + sum_list (slice i (i + k) (sizes s))"
  by (simp add: rows_before_def slice_def take_add)

lemma rows_before_mono: "i \<le> j \<Longrightarrow> rows_before s i \<le> rows_before s j"
proof -
  assume "i \<le> j"
  then obtain k where "j = i + k" using le_Suc_ex by blast
  then show ?thesis by (simp add: rows_before_step)
qed

lemma rows_before_all: "length (sizes s) \<le> i \<Longrightarrow> rows_before s i = sum_list (sizes s)"
  by (simp add: rows_before_def)

lemma partition_loop_done:
  "length (sizes s) \<le> i \<Longrightarrow> partition_loop s r spp h i prev = Inr []"
  by (subst partition_loop.simps) simp

lemma partition_loop_step:
  assumes "0 < spp" and "i < length (sizes s)" and "part_series s spp h i prev = Inr p"
    and "partition_loop s r spp h (i + spp) (prev + sum_list (sizes p)) = Inr ps"
  shows "partition_loop s r spp h i prev = Inr (\<lparr>series = p, rest = r\<rparr> # ps)"
  using assms by (subst partition_loop.simps) simp

lemma part_series_fields:
  assumes "futr_ok s h"
  shows "\<exists>p. part_series s spp h i (rows_before s i) = Inr p
           \<and> sizes p = slice i (i + spp) (sizes s)
           \<and> y p = slice (rows_before s i) (rows_before s (i + spp)) (y s)
           \<and> X p = map_option (map (slice (rows_before s i) (rows_before s (i + spp)))) (X s)
           \<and> (0 < h \<and> X s \<noteq> None \<longrightarrow>
                entry_rows (X_future p)
                  = map (slice (i * nat h) ((i + spp) * nat h)) (entry_rows (X_future s)))"
  using assms
  by (auto simp: part_series_def futr_ok_def Let_def rows_before_step entry_rows_def
           split: option.splits entry.splits)

lemma partition_loop_concat:
  assumes "0 < spp" and "futr_ok s h"
    and mono: "\<And>i j. i \<le> j \<Longrightarrow> g i \<le> g j"
    and full: "\<And>i. length (sizes s) \<le> i \<Longrightarrow> length row \<le> g i"
    and field: "\<And>i p. i < length (sizes s) \<Longrightarrow> part_series s spp h i (rows_before s i) = Inr p
                  \<Longrightarrow> f p = slice (g i) (g (i + spp)) row"
  shows "\<exists>ps. partition_loop s r spp h i (rows_before s i) = Inr ps
           \<and> concat (map (\<lambda>p. f (series p)) ps) = drop (g i) row"
proof (induction "length (sizes s) - i" arbitrary: i rule: less_induct)
  case less
  show ?case
  proof (cases "length (sizes s) \<le> i")
    case True
    then show ?thesis using full[OF True] by (simp add: partition_loop_done)
  next
    case False
    then have lt: "i < length (sizes s)" by simp
    obtain p where p: "part_series s spp h i (rows_before s i) = Inr p"
      "sizes p = slice i (i + spp) (sizes s)"
      using part_series_fields[OF assms(2), of spp i] by blast
    have "length (sizes s) - (i + spp) < length (sizes s) - i" using lt assms(1) by simp
    from less[OF this] obtain ps where
      ps: "partition_loop s r spp h (i + spp) (rows_before s (i + spp)) = Inr ps"
        "concat (map (\<lambda>p. f (series p)) ps) = drop (g (i + spp)) row" by blast
    have next_prev: "rows_before s i + sum_list (sizes p) = rows_before s (i + spp)"
      using p(2) by (simp add: rows_before_step)
    have run: "partition_loop s r spp h i (rows_before s i) = Inr (\<lparr>series = p, rest = r\<rparr> # ps)"
      using partition_loop_step[OF assms(1) lt p(1)] ps(1) next_prev by simp
    have "f p @ drop (g (i + spp)) row = drop (g i) row"
      unfolding field[OF lt p(1)] by (rule slice_append_drop) (simp add: mono)
    then show ?thesis using run ps(2) by simp
  qed
qed


lemma partition_loop_all:
  assumes "0 < spp"
    and field: "\<And>i p. i < length (sizes s) \<Longrightarrow> part_series s spp h i (rows_before s i) = Inr p \<Longrightarrow> P p"
  shows "partition_loop s r spp h i (rows_before s i) = Inr ps
           \<Longrightarrow> \<forall>q \<in> set ps. P (series q) \<and> rest q = r"
proof (induction "length (sizes s) - i" arbitrary: i ps rule: less_induct)
  case less
  show ?case
  proof (cases "length (sizes s) \<le> i")
    case True
    then show ?thesis using less.prems by (simp add: partition_loop_done)
  next
    case False
    then have lt: "i < length (sizes s)" by simp
    from less.prems lt assms(1) obtain p ps' where
      p: "part_series s spp h i (rows_before s i) = Inr p"
      and rec: "partition_loop s r spp h (i + spp) (rows_before s i + sum_list (sizes p)) = Inr ps'"
      and ps: "ps = \<lparr>series = p, rest = r\<rparr> # ps'"
      by (subst (asm) partition_loop.simps) (auto split: sum.splits)
    have "sizes p = slice i (i + spp) (sizes s)"
      using p by (auto simp: part_series_def Let_def split: option.splits if_splits entry.splits)
    then have next_prev: "rows_before s i + sum_list (sizes p) = rows_before s (i + spp)"
      by (simp add: rows_before_step)
    have "length (sizes s) - (i + spp) < length (sizes s) - i" using lt assms(1) by simp
    from less.hyps[OF this] rec next_prev
    have "\<forall>q \<in> set ps'. P (series q) \<and> rest q = r" by simp
    then show ?thesis using ps field[OF lt p] by simp
  qed
qed

lemma rows_before_le_total: "rows_before s i \<le> sum_list (sizes s)"
proof -
  have "sum_list (sizes s) = sum_list (take i (sizes s)) + sum_list (drop i (sizes s))"
    by (metis append_take_drop_id sum_list_append)
  then show ?thesis by (simp add: rows_before_def)
qed

lemma partition_series_as_loop:
  assumes "1 \<le> length (sizes (series payload))" and "1 \<le> n_part"
  shows "\<exists>spp. 0 < spp \<and> partition_series payload n_part h
           = partition_loop (series payload) (rest payload) spp h 0 0"
proof -
  define n where "n = length (sizes (series payload))"
  define m where "m = min n_part (int n)"
  define spp where "spp = ceil_div (int n) m"
  have n: "0 < int n" using assms(1) unfolding n_def by linarith
  have m: "1 \<le> m" using n assms(2) by (simp add: m_def)
  have spp: "1 \<le> spp"
  proof -
    have "0 < m" using m by simp
    with n show ?thesis unfolding spp_def by (rule ceil_div_ge1)
  qed
  have "partition_series payload n_part h
      = partition_loop (series payload) (rest payload) (nat spp) h 0 0"
    using m spp
    by (simp add: partition_series_def Let_def m_def[symmetric] n_def[symmetric] spp_def[symmetric])
  moreover have "0 < nat spp" using spp by simp
  ultimately show ?thesis by blast
qed

text \<open>
  On the payloads where the loop body does not raise, partitioning is a round trip: the
  sub-payloads' \<open>sizes\<close>, \<open>y\<close>, rows of \<open>X\<close> and rows of \<open>X_future\<close>, concatenated in
  partition order, are the original ones, every sub-payload holds whole series, and the
  other keys are copied.
\<close>

lemma partition_series_roundtrip:
  assumes "1 \<le> length (sizes (series payload))" and "1 \<le> n_part"
    and "futr_ok (series payload) h"
    and wf_y: "length (y (series payload)) = sum_list (sizes (series payload))"
    and wf_X: "\<forall>rows. X (series payload) = Some rows \<longrightarrow>
                 (\<forall>row \<in> set rows. length row = sum_list (sizes (series payload)))"
    and wf_F: "\<forall>row \<in> set (entry_rows (X_future (series payload))).
                 length row = length (sizes (series payload)) * nat h"
  shows "\<exists>parts. partition_series payload n_part h = Inr parts
     \<and> concat (map (\<lambda>p. sizes (series p)) parts) = sizes (series payload)
     \<and> concat (map (\<lambda>p. y (series p)) parts) = y (series payload)
     \<and> (\<forall>p \<in> set parts. length (y (series p)) = sum_list (sizes (series p))
                           \<and> rest p = rest payload)
     \<and> (X (series payload) = None \<longrightarrow> (\<forall>p \<in> set parts. X (series p) = None))
     \<and> (\<forall>rows. X (series payload) = Some rows \<longrightarrow>
           (\<forall>j < length rows. concat (map (\<lambda>p. the (X (series p)) ! j) parts) = rows ! j))
     \<and> (0 < h \<and> X (series payload) \<noteq> None \<longrightarrow>
           (\<forall>j < length (entry_rows (X_future (series payload))).
              concat (map (\<lambda>p. entry_rows (X_future (series p)) ! j) parts)
                = entry_rows (X_future (series payload)) ! j))"
proof -
  let ?s = "series payload"
  let ?n = "length (sizes ?s)"
  obtain spp where spp: "0 < spp"
    and run0: "partition_series payload n_part h = partition_loop ?s (rest payload) spp h 0 0"
    using partition_series_as_loop[OF assms(1,2)] by blast
  have rb0: "rows_before ?s 0 = 0" by (simp add: rows_before_def)
  have run: "partition_series payload n_part h
                = partition_loop ?s (rest payload) spp h 0 (rows_before ?s 0)"
    using run0 rb0 by simp
  note fields = part_series_fields[OF assms(3), of spp]
  note total = rows_before_le_total[of ?s]
  \<comment> \<open>sizes\<close>
  have "\<exists>ps. partition_loop ?s (rest payload) spp h 0 (rows_before ?s 0) = Inr ps
           \<and> concat (map (\<lambda>p. sizes (series p)) ps) = drop 0 (sizes ?s)"
  proof (rule partition_loop_concat[OF spp assms(3), of "\<lambda>i. i"])
    show "\<And>i k. i \<le> k \<Longrightarrow> i \<le> k" by simp
    show "\<And>i. ?n \<le> i \<Longrightarrow> length (sizes ?s) \<le> i" by simp
    fix i p assume "i < ?n" and p: "part_series ?s spp h i (rows_before ?s i) = Inr p"
    from fields[of i] p show "sizes p = slice i (i + spp) (sizes ?s)" by auto
  qed
  then obtain parts where parts: "partition_loop ?s (rest payload) spp h 0 (rows_before ?s 0) = Inr parts"
    and c_sizes: "concat (map (\<lambda>p. sizes (series p)) parts) = drop 0 (sizes ?s)"
    by blast
  \<comment> \<open>y\<close>
  have "\<exists>ps. partition_loop ?s (rest payload) spp h 0 (rows_before ?s 0) = Inr ps
           \<and> concat (map (\<lambda>p. y (series p)) ps) = drop (rows_before ?s 0) (y ?s)"
  proof (rule partition_loop_concat[OF spp assms(3)])
    show "\<And>i k. i \<le> k \<Longrightarrow> rows_before ?s i \<le> rows_before ?s k" by (rule rows_before_mono)
    show "\<And>i. ?n \<le> i \<Longrightarrow> length (y ?s) \<le> rows_before ?s i"
      using wf_y by (simp add: rows_before_all)
    fix i p assume "i < ?n" and p: "part_series ?s spp h i (rows_before ?s i) = Inr p"
    from fields[of i] p
    show "y p = slice (rows_before ?s i) (rows_before ?s (i + spp)) (y ?s)" by auto
  qed
  then have c_y: "concat (map (\<lambda>p. y (series p)) parts) = drop (rows_before ?s 0) (y ?s)"
    using parts by simp
  \<comment> \<open>every part\<close>
  have each: "\<forall>p \<in> set parts. (length (y (series p)) = sum_list (sizes (series p))
                \<and> (X ?s = None \<longrightarrow> X (series p) = None)) \<and> rest p = rest payload"
  proof (rule partition_loop_all[OF spp _ parts])
    fix i p assume "i < ?n" and p: "part_series ?s spp h i (rows_before ?s i) = Inr p"
    from fields[of i] p have f: "sizes p = slice i (i + spp) (sizes ?s)"
      "y p = slice (rows_before ?s i) (rows_before ?s (i + spp)) (y ?s)"
      "X p = map_option (map (slice (rows_before ?s i) (rows_before ?s (i + spp)))) (X ?s)"
      by auto
    have "length (y p) = rows_before ?s (i + spp) - rows_before ?s i"
      unfolding f(2) slice_def using total[of "i + spp"] total[of i] wf_y by simp
    also have "\<dots> = sum_list (sizes p)" unfolding f(1) by (simp add: rows_before_step)
    finally show "length (y p) = sum_list (sizes p) \<and> (X ?s = None \<longrightarrow> X p = None)"
      using f(3) by simp
  qed
  \<comment> \<open>X\<close>
  have c_X: "\<forall>rows. X ?s = Some rows \<longrightarrow>
           (\<forall>j < length rows. concat (map (\<lambda>p. the (X (series p)) ! j) parts) = rows ! j)"
  proof (intro allI impI)
    fix rows j assume rows: "X ?s = Some rows" and j: "j < length rows"
    have len: "length (rows ! j) = sum_list (sizes ?s)" using wf_X rows j by simp
    have "\<exists>ps. partition_loop ?s (rest payload) spp h 0 (rows_before ?s 0) = Inr ps
           \<and> concat (map (\<lambda>p. the (X (series p)) ! j) ps) = drop (rows_before ?s 0) (rows ! j)"
    proof (rule partition_loop_concat[OF spp assms(3)])
      show "\<And>i k. i \<le> k \<Longrightarrow> rows_before ?s i \<le> rows_before ?s k" by (rule rows_before_mono)
      show "\<And>i. ?n \<le> i \<Longrightarrow> length (rows ! j) \<le> rows_before ?s i"
        using len by (simp add: rows_before_all)
      fix i p assume "i < ?n" and p: "part_series ?s spp h i (rows_before ?s i) = Inr p"
      from fields[of i] p rows
      have "X p = Some (map (slice (rows_before ?s i) (rows_before ?s (i + spp))) rows)" by auto
      then show "the (X p) ! j = slice (rows_before ?s i) (rows_before ?s (i + spp)) (rows ! j)"
        using j by simp
    qed
    then show "concat (map (\<lambda>p. the (X (series p)) ! j) parts) = rows ! j"
      using parts rb0 by simp
  qed
  \<comment> \<open>X_future\<close>
  have c_F: "0 < h \<and> X ?s \<noteq> None \<longrightarrow>
           (\<forall>j < length (entry_rows (X_future ?s)).
              concat (map (\<lambda>p. entry_rows (X_future (series p)) ! j) parts)
                = entry_rows (X_future ?s) ! j)"
  proof (intro allI impI)
    fix j assume h: "0 < h \<and> X ?s \<noteq> None" and j: "j < length (entry_rows (X_future ?s))"
    let ?row = "entry_rows (X_future ?s) ! j"
    have len: "length ?row = ?n * nat h" using wf_F j by simp
    have "\<exists>ps. partition_loop ?s (rest payload) spp h 0 (rows_before ?s 0) = Inr ps
           \<and> concat (map (\<lambda>p. entry_rows (X_future (series p)) ! j) ps) = drop (0 * nat h) ?row"
    proof (rule partition_loop_concat[OF spp assms(3), of "\<lambda>i. i * nat h"])
      show "\<And>i k. i \<le> k \<Longrightarrow> i * nat h \<le> k * nat h" by simp
      show "\<And>i. ?n \<le> i \<Longrightarrow> length ?row \<le> i * nat h" using len by simp
      fix i p assume "i < ?n" and p: "part_series ?s spp h i (rows_before ?s i) = Inr p"
      from fields[of i] p h
      have "entry_rows (X_future p)
              = map (slice (i * nat h) ((i + spp) * nat h)) (entry_rows (X_future ?s))" by auto
      then show "entry_rows (X_future p) ! j = slice (i * nat h) ((i + spp) * nat h) ?row"
        using j by simp
    qed
    then show "concat (map (\<lambda>p. entry_rows (X_future (series p)) ! j) parts) = ?row"
      using parts by simp
  qed
  have c_sizes': "concat (map (\<lambda>p. sizes (series p)) parts) = sizes ?s" using c_sizes by simp
  have c_y': "concat (map (\<lambda>p. y (series p)) parts) = y ?s" using c_y rb0 by simp
  have each1: "\<forall>p \<in> set parts. length (y (series p)) = sum_list (sizes (series p))
                           \<and> rest p = rest payload" using each by blast
  have each2: "X ?s = None \<longrightarrow> (\<forall>p \<in> set parts. X (series p) = None)" using each by blast
  have r: "partition_series payload n_part h = Inr parts" using run parts by simp
  show ?thesis by (intro exI[of _ parts] conjI r c_sizes' c_y' each1 each2 c_X c_F)
qed

text \<open>
  Claim C2, at a payload with historical exogenous features only. The payload has
  \<open>X\<close> present and \<^verbatim>\<open>X_future = None\<close>; with \<open>h = 1\<close> the loop body iterates over
  \<^verbatim>\<open>series["X_future"]\<close> and \<^verbatim>\<open>_partition_series\<close> raises \<^verbatim>\<open>TypeError\<close> where the claim has
  it return sub-payloads that concatenate to the original.
\<close>

theorem partition_series_hist_exog_raises:
  "partition_series hist_exog_payload 2 1 = Inl TypeError"
  by (simp add: hist_exog_payload_def partition_series_def ceil_div_def partition_loop.simps
        part_series_def slice_def)

section \<open>Properties of the result merger\<close>

text \<open>
  Claim C1, at three partitions of 2, 3 and 4 rows whose responses select every local
  row. The offset applied to the third partition is 3, the size of the second partition
  alone; the cumulative offset of the claim is 5, which would give the indices 5 to 8.
\<close>

theorem merge_idxs_three_partitions:
  "offsets three_payloads = [0, 2, 3]
   \<and> merge_idxs three_results three_payloads = Inr [0, 1, 2, 3, 4, 3, 4, 5, 6]
   \<and> map_sum id idxs (merge_results three_results three_payloads)
       = Inr (Some [0, 1, 2, 3, 4, 3, 4, 5, 6])"
  by (simp add: merge_results_def merge_idxs_def offsets_def three_results_def
        three_payloads_def rows_response_def hstack_key_def when_present_def get_key_def
        np_hstack_def)

section \<open>Properties of the retry policy\<close>


lemma retry_call_spec:
  "retry_call cfg fn clock k = (out, n) \<Longrightarrow>
     k \<le> n \<and> out = fn n
     \<and> (\<forall>j. k \<le> j \<and> j < n \<longrightarrow> (\<exists>e. fn j = Inl e \<and> should_retry e) \<and> \<not> stop cfg j (clock j))
     \<and> (\<forall>e. fn n = Inl e \<and> should_retry e \<longrightarrow> stop cfg n (clock n))"
proof (induction cfg fn clock k rule: retry_call.induct)
  case (1 cfg fn clock k)
  show ?case
  proof (cases "fn k")
    case (Inr r)
    with "1.prems" have "out = Inr r" "n = k" by (auto simp: retry_call.simps)
    with Inr show ?thesis by auto
  next
    case (Inl e)
    show ?thesis
    proof (cases "should_retry e \<and> \<not> stop cfg k (clock k)")
      case False
      with Inl "1.prems" have "out = Inl e" "n = k"
        by (auto simp: retry_call.simps split: if_splits)
      with Inl False show ?thesis by auto
    next
      case True
      with Inl "1.prems" have rec: "retry_call cfg fn clock (Suc k) = (out, n)"
        by (simp add: retry_call.simps)
      from "1.IH"[OF Inl _ _ rec] True
      have ih: "Suc k \<le> n" "out = fn n"
        "\<forall>j. Suc k \<le> j \<and> j < n \<longrightarrow> (\<exists>e. fn j = Inl e \<and> should_retry e) \<and> \<not> stop cfg j (clock j)"
        "\<forall>e. fn n = Inl e \<and> should_retry e \<longrightarrow> stop cfg n (clock n)"
        by auto
      have "\<forall>j. k \<le> j \<and> j < n \<longrightarrow> (\<exists>e. fn j = Inl e \<and> should_retry e) \<and> \<not> stop cfg j (clock j)"
      proof (intro allI impI)
        fix j assume j: "k \<le> j \<and> j < n"
        show "(\<exists>e. fn j = Inl e \<and> should_retry e) \<and> \<not> stop cfg j (clock j)"
        proof (cases "j = k")
          case True
          then show ?thesis using Inl \<open>should_retry e \<and> \<not> stop cfg k (clock k)\<close> by simp
        next
          case False
          then have "Suc k \<le> j \<and> j < n" using j by simp
          then show ?thesis using ih(3) by blast
        qed
      qed
      with ih show ?thesis by simp
    qed
  qed
qed




lemma retry_call_from: "retry_call cfg fn clock k = (out, n) \<Longrightarrow> k \<le> n"
  using retry_call_spec by blast

lemma retry_call_stop:
  "fn k = Inl e \<Longrightarrow> \<not> should_retry e \<Longrightarrow> retry_call cfg fn clock k = (Inl e, k)"
  by (subst retry_call.simps) simp

lemma retry_call_again:
  "fn k = Inl e \<Longrightarrow> should_retry e \<Longrightarrow> \<not> stop cfg k (clock k)
     \<Longrightarrow> retry_call cfg fn clock k = retry_call cfg fn clock (Suc k)"
  by (subst retry_call.simps) simp

text \<open>
  Claim C4, as amended. When the body of the response cannot be parsed, \<^verbatim>\<open>_make_request\<close>
  raises an \<^verbatim>\<open>ApiError\<close> that carries the status code of the response and the raw body
  text. Under the retry strategy that error is surfaced after the first attempt when the
  status code is none of 408, 409, 429, 502, 503, 504; when it is one of them and neither
  limit is reached, a second attempt is made.
\<close>

theorem unparseable_body_retried_by_status:
  "(loads (resp_content resp) = None \<and> build_request compress endpoint dumped mt = Inr req
      \<and> post 1 req = Inr resp \<longrightarrow>
      make_request (post 1) loads compress endpoint dumped mt = Inl (unparseable_error resp)
      \<and> (resp_status_code resp \<notin> {408, 409, 429, 502, 503, 504} \<longrightarrow>
           make_request_with_retries cfg clock post loads compress endpoint dumped mt
             = (Inl (unparseable_error resp), 1))
      \<and> (resp_status_code resp \<in> {408, 409, 429, 502, 503, 504}
             \<and> 1 < max_retries cfg \<and> clock 1 < of_int (max_wait_time cfg) \<longrightarrow>
           2 \<le> snd (make_request_with_retries cfg clock post loads compress endpoint dumped mt)))"
proof (intro impI)
  assume a: "loads (resp_content resp) = None \<and> build_request compress endpoint dumped mt = Inr req
      \<and> post 1 req = Inr resp"
  let ?fn = "\<lambda>k. make_request (post k) loads compress endpoint dumped mt"
  have mk: "?fn 1 = Inl (unparseable_error resp)"
    using a by (simp add: make_request_def parse_response_def unparseable_error_def)
  have sr: "should_retry (unparseable_error resp)
              \<longleftrightarrow> resp_status_code resp \<in> {408, 409, 429, 502, 503, 504}"
    by (simp add: unparseable_error_def retriable_codes_def)
  have imm: "resp_status_code resp \<notin> {408, 409, 429, 502, 503, 504} \<longrightarrow>
           make_request_with_retries cfg clock post loads compress endpoint dumped mt
             = (Inl (unparseable_error resp), 1)"
  proof
    assume "resp_status_code resp \<notin> {408, 409, 429, 502, 503, 504}"
    then have "\<not> should_retry (unparseable_error resp)" using sr by simp
    then show "make_request_with_retries cfg clock post loads compress endpoint dumped mt
             = (Inl (unparseable_error resp), 1)"
      unfolding make_request_with_retries_def
      using retry_call_stop[of ?fn 1 "unparseable_error resp" cfg clock] mk by simp
  qed
  have again: "resp_status_code resp \<in> {408, 409, 429, 502, 503, 504}
             \<and> 1 < max_retries cfg \<and> clock 1 < of_int (max_wait_time cfg) \<longrightarrow>
           2 \<le> snd (make_request_with_retries cfg clock post loads compress endpoint dumped mt)"
  proof
    assume b: "resp_status_code resp \<in> {408, 409, 429, 502, 503, 504}
             \<and> 1 < max_retries cfg \<and> clock 1 < of_int (max_wait_time cfg)"
    then have r: "should_retry (unparseable_error resp)" using sr by simp
    have ns: "\<not> stop cfg 1 (clock 1)" using b by (simp add: stop_def)
    have step: "retry_call cfg ?fn clock 1 = retry_call cfg ?fn clock (Suc 1)"
      using retry_call_again[of ?fn 1 "unparseable_error resp" cfg clock] mk r ns by simp
    obtain out n where on: "retry_call cfg ?fn clock (Suc 1) = (out, n)" by force
    from retry_call_from[OF on] have "Suc 1 \<le> n" .
    then show "2 \<le> snd (make_request_with_retries cfg clock post loads compress endpoint dumped mt)"
      unfolding make_request_with_retries_def step on by simp
  qed
  from mk imm again
  show "make_request (post 1) loads compress endpoint dumped mt = Inl (unparseable_error resp)
      \<and> (resp_status_code resp \<notin> {408, 409, 429, 502, 503, 504} \<longrightarrow>
           make_request_with_retries cfg clock post loads compress endpoint dumped mt
             = (Inl (unparseable_error resp), 1))
      \<and> (resp_status_code resp \<in> {408, 409, 429, 502, 503, 504}
             \<and> 1 < max_retries cfg \<and> clock 1 < of_int (max_wait_time cfg) \<longrightarrow>
           2 \<le> snd (make_request_with_retries cfg clock post loads compress endpoint dumped mt))"
    by blast
qed

text \<open>
  Claim C4 as stated fails: a response with status 503 and a body that is not JSON is
  retried until the attempt limit, here three attempts.
\<close>

theorem unparseable_503_is_retried:
  "make_request_with_retries three_attempts clock10 html_503 no_json no_compress
      ''v2/forecast'' ''{}'' True
     = (Inl (ApiError (Some 503) (Text (''Could not parse JSON: '' @ bytes_repr ''<html>''))), 3)"
  by (simp add: make_request_with_retries_def make_request_def build_request_def
        parse_response_def html_503_def no_json_def three_attempts_def clock10_def
        retry_call.simps stop_def retriable_codes_def)

theorem unparseable_body_retried_by_status_witness:
  "make_request_with_retries three_attempts clock10 html_404 no_json no_compress
      ''v2/forecast'' ''{}'' True
     = (Inl (ApiError (Some 404) (Text (''Could not parse JSON: '' @ bytes_repr ''<html>''))), 1)
   \<and> 2 \<le> snd (make_request_with_retries three_attempts clock10 html_503 no_json no_compress
        ''v2/forecast'' ''{}'' True)"
proof -
  have b: "build_request no_compress ''v2/forecast'' ''{}'' True
       = Inr \<lparr>url = ''v2/forecast'', content = ''{}'', headers = []\<rparr>"
    by (simp add: build_request_def)
  have "make_request_with_retries three_attempts clock10 html_404 no_json no_compress
      ''v2/forecast'' ''{}'' True
     = (Inl (unparseable_error \<lparr>resp_status_code = 404, resp_content = ''<html>''\<rparr>), 1)"
    using unparseable_body_retried_by_status[of no_json
        "\<lparr>resp_status_code = 404, resp_content = ''<html>''\<rparr>" no_compress "''v2/forecast''"
        "''{}''" True "\<lparr>url = ''v2/forecast'', content = ''{}'', headers = []\<rparr>" html_404
        three_attempts clock10] b
    by (simp add: no_json_def html_404_def)
  moreover have "2 \<le> snd (make_request_with_retries three_attempts clock10 html_503 no_json
        no_compress ''v2/forecast'' ''{}'' True)"
    using unparseable_body_retried_by_status[of no_json
        "\<lparr>resp_status_code = 503, resp_content = ''<html>''\<rparr>" no_compress "''v2/forecast''"
        "''{}''" True "\<lparr>url = ''v2/forecast'', content = ''{}'', headers = []\<rparr>" html_503
        three_attempts clock10] b
    by (simp add: no_json_def html_503_def three_attempts_def clock10_def)
  ultimately show ?thesis by (simp add: unparseable_error_def)
qed

section \<open>Properties of the request size limits\<close>

lemma size_mb_gt_200:
  "((of_nat n :: rat) / 2 ^ 20 > 200) = (200 * 2 ^ 20 < n)"
proof -
  have "((of_nat n :: rat) / 2 ^ 20 > 200) = ((200::rat) * 2 ^ 20 < of_nat n)"
    by (simp add: pos_less_divide_eq)
  also have "\<dots> = ((of_nat (200 * 2 ^ 20) :: rat) < of_nat n)" by simp
  also have "\<dots> = (200 * 2 ^ 20 < n)"
    by (rule of_nat_less_iff)
  finally show ?thesis .
qed

lemma size_mb_gt_1:
  "((of_nat n :: rat) / 2 ^ 20 > 1) = (2 ^ 20 < n)"
proof -
  have "((of_nat n :: rat) / 2 ^ 20 > 1) = ((2::rat) ^ 20 < of_nat n)"
    by (simp add: pos_less_divide_eq)
  also have "\<dots> = ((of_nat (2 ^ 20) :: rat) < of_nat n)" by simp
  also have "\<dots> = (2 ^ 20 < n)"
    by (rule of_nat_less_iff)
  finally show ?thesis .
qed

text \<open>
  Claim C8. When the serialized payload exceeds 200 MiB, \<^verbatim>\<open>_make_request\<close> raises, whatever
  the transport would do, a \<^verbatim>\<open>ValueError\<close> that names the number of partitions to set: the
  ceiling of the size in MiB divided by 200. When the size exceeds 1 MiB and not 200 MiB,
  the request carries the compressed bytes and the header \<^verbatim>\<open>content-encoding: zstd\<close>. At
  1 MiB or less it carries the bytes as they are and no header. In the last two cases the
  transport is called with that request.
\<close>

theorem make_request_size_limits:
  "(200 * 2 ^ 20 < length dumped \<longrightarrow>
      make_request post loads compress endpoint dumped mt
        = Inl (Builtin (ValueError
            (''The payload is too large. Set num_partitions=''
               @ str_int \<lceil>((of_nat (length dumped) :: rat) / 2 ^ 20) / 200\<rceil>))))
   \<and> (2 ^ 20 < length dumped \<and> length dumped \<le> 200 * 2 ^ 20 \<longrightarrow>
        build_request compress endpoint dumped mt
          = Inr \<lparr>url = endpoint, content = compress (if mt then - 1 else 0) dumped,
                 headers = [(''content-encoding'', ''zstd'')]\<rparr>)
   \<and> (length dumped \<le> 2 ^ 20 \<longrightarrow>
        build_request compress endpoint dumped mt
          = Inr \<lparr>url = endpoint, content = dumped, headers = []\<rparr>)
   \<and> (length dumped \<le> 200 * 2 ^ 20 \<longrightarrow>
        (\<exists>req. build_request compress endpoint dumped mt = Inr req
           \<and> make_request post loads compress endpoint dumped mt
               = (case post req of Inl exc \<Rightarrow> Inl exc | Inr resp \<Rightarrow> parse_response loads resp)))"
proof (intro conjI impI)
  assume "200 * 2 ^ 20 < length dumped"
  then show "make_request post loads compress endpoint dumped mt
        = Inl (Builtin (ValueError
            (''The payload is too large. Set num_partitions=''
               @ str_int \<lceil>((of_nat (length dumped) :: rat) / 2 ^ 20) / 200\<rceil>)))"
    unfolding make_request_def build_request_def Let_def size_mb_gt_200 by simp
next
  assume "2 ^ 20 < length dumped \<and> length dumped \<le> 200 * 2 ^ 20"
  then show "build_request compress endpoint dumped mt
          = Inr \<lparr>url = endpoint, content = compress (if mt then - 1 else 0) dumped,
                 headers = [(''content-encoding'', ''zstd'')]\<rparr>"
    unfolding build_request_def Let_def size_mb_gt_200 size_mb_gt_1 by simp
next
  assume "length dumped \<le> 2 ^ 20"
  then show "build_request compress endpoint dumped mt
          = Inr \<lparr>url = endpoint, content = dumped, headers = []\<rparr>"
    unfolding build_request_def Let_def size_mb_gt_200 size_mb_gt_1 by simp
next
  assume "length dumped \<le> 200 * 2 ^ 20"
  then show "\<exists>req. build_request compress endpoint dumped mt = Inr req
           \<and> make_request post loads compress endpoint dumped mt
               = (case post req of Inl exc \<Rightarrow> Inl exc | Inr resp \<Rightarrow> parse_response loads resp)"
    unfolding make_request_def build_request_def Let_def size_mb_gt_200 size_mb_gt_1 by simp
qed

lemma ceil_two: "\<lceil>((of_nat 209715201 :: rat) / 2 ^ 20) / 200\<rceil> = 2"
  by (rule ceiling_unique) simp_all

theorem make_request_size_limits_witness:
  "make_request unreachable_post no_json no_compress ''v2/forecast''
      (replicate 209715201 CHR ''a'') True
     = Inl (Builtin (ValueError ''The payload is too large. Set num_partitions=2''))
   \<and> build_request no_compress ''v2/forecast'' (replicate 1048577 CHR ''a'') True
       = Inr \<lparr>url = ''v2/forecast'', content = replicate 1048577 CHR ''a'',
              headers = [(''content-encoding'', ''zstd'')]\<rparr>
   \<and> build_request no_compress ''v2/forecast'' ''{}'' True
       = Inr \<lparr>url = ''v2/forecast'', content = ''{}'', headers = []\<rparr>"
proof -
  note g = make_request_size_limits[of _ unreachable_post no_json no_compress "''v2/forecast''" True]
  have s2: "str_int 2 = ''2''" by code_simp
  have a: "make_request unreachable_post no_json no_compress ''v2/forecast''
      (replicate 209715201 CHR ''a'') True
     = Inl (Builtin (ValueError ''The payload is too large. Set num_partitions=2''))"
    using g[of "replicate 209715201 CHR ''a''"] ceil_two s2
    by simp
  have b: "build_request no_compress ''v2/forecast'' (replicate 1048577 CHR ''a'') True
       = Inr \<lparr>url = ''v2/forecast'', content = replicate 1048577 CHR ''a'',
              headers = [(''content-encoding'', ''zstd'')]\<rparr>"
    using g[of "replicate 1048577 CHR ''a''"]
    by (simp add: no_compress_def)
  have c: "build_request no_compress ''v2/forecast'' ''{}'' True
       = Inr \<lparr>url = ''v2/forecast'', content = ''{}'', headers = []\<rparr>"
    using g[of "''{}''"] by simp
  from a b c show ?thesis by blast
qed

section \<open>Properties of the tail of series\<close>

lemma np_diff_cumsum_from: "np_diff (a # cumsum_from a ls) = ls"
  by (induction ls arbitrary: a) (simp_all add: np_diff_def)

lemma length_cumsum_from: "length (cumsum_from a ls) = length ls"
  by (induction ls arbitrary: a) simp_all

lemma any_greater_same_length:
  "length a = length b \<Longrightarrow> any_greater a b = Inr (\<exists>i < length a. a ! i > b ! i)"
  by (auto simp: any_greater_def list_ex_iff set_zip)

lemma tail_indices_nat:
  "m \<le> length s \<Longrightarrow>
     map (\<lambda>i. (pre @ s @ sfx) ! nat i)
       [int (length pre) + int (length s) - int m .. int (length pre) + int (length s) - 1]
     = drop (length s - m) s"
proof (induction m)
  case 0
  then show ?case by simp
next
  case (Suc m)
  let ?P = "int (length pre)" and ?L = "int (length s)"
  have lt: "length s - Suc m < length s" using Suc.prems by simp
  have "[?P + ?L - int (Suc m) .. ?P + ?L - 1]
          = (?P + ?L - int (Suc m)) # [?P + ?L - int m .. ?P + ?L - 1]"
    using Suc.prems by (subst upto_rec1) (simp_all add: algebra_simps)
  moreover have "nat (?P + ?L - int (Suc m)) = length pre + (length s - Suc m)"
    using Suc.prems by simp
  moreover have "(pre @ s @ sfx) ! (length pre + (length s - Suc m)) = s ! (length s - Suc m)"
    using lt by (simp add: nth_append)
  moreover have "drop (length s - Suc m) s = s ! (length s - Suc m) # drop (length s - m) s"
    using Suc.prems lt by (metis Cons_nth_drop_Suc Suc_diff_Suc Suc_le_lessD)
  ultimately show ?case using Suc by simp
qed

lemma tail_indices:
  assumes "k \<le> int (length s)"
  shows "map (\<lambda>i. (pre @ s @ sfx) ! nat i)
           (arange (int (length pre) + int (length s) - k) (int (length pre) + int (length s)))
         = last_rows k s"
proof (cases "k \<le> 0")
  case True
  then show ?thesis by (simp add: arange_def last_rows_def)
next
  case False
  then have k: "k = int (nat k)" "nat k \<le> length s" using assms by simp_all
  show ?thesis
    unfolding arange_def last_rows_def
    by (subst (1) k(1)) (rule tail_indices_nat[OF k(2)])
qed

lemma tail_indices_range:
  assumes "k \<le> int (length s)"
  shows "\<forall>i \<in> set (arange (int (length pre) + int (length s) - k) (int (length pre) + int (length s))).
           0 \<le> i \<and> i < int (length (pre @ s @ sfx))"
  using assms by (auto simp: arange_def)

lemma tail_ranges_correct:
  assumes "length ks = length segs"
    and "\<forall>i < length segs. ks ! i \<le> int (length (segs ! i))"
  shows "(\<forall>i \<in> set (concat (tail_ranges (cumsum_from (int (length pre)) (map (\<lambda>seg. int (length seg)) segs)) ks)).
            0 \<le> i \<and> i < int (length (pre @ concat segs)))
         \<and> map (\<lambda>i. (pre @ concat segs) ! nat i)
              (concat (tail_ranges (cumsum_from (int (length pre)) (map (\<lambda>seg. int (length seg)) segs)) ks))
           = concat (map (\<lambda>(seg, k). last_rows k seg) (zip segs ks))"
  using assms
proof (induction segs arbitrary: pre ks)
  case Nil
  then show ?case by (simp add: tail_ranges_def)
next
  case (Cons s ss)
  then obtain k kk where ks: "ks = k # kk" by (cases ks) auto
  have k: "k \<le> int (length s)" using Cons.prems(2) ks by auto
  have kk: "length kk = length ss" "\<forall>i < length ss. kk ! i \<le> int (length (ss ! i))"
    using Cons.prems ks by auto
  have ih: "(\<forall>i \<in> set (concat (tail_ranges (cumsum_from (int (length (pre @ s))) (map (\<lambda>seg. int (length seg)) ss)) kk)).
            0 \<le> i \<and> i < int (length ((pre @ s) @ concat ss)))
         \<and> map (\<lambda>i. ((pre @ s) @ concat ss) ! nat i)
              (concat (tail_ranges (cumsum_from (int (length (pre @ s))) (map (\<lambda>seg. int (length seg)) ss)) kk))
           = concat (map (\<lambda>(seg, k). last_rows k seg) (zip ss kk))"
    by (rule Cons.IH[OF kk])
  have unfold: "tail_ranges (cumsum_from (int (length pre)) (map (\<lambda>seg. int (length seg)) (s # ss))) ks
      = arange (int (length pre) + int (length s) - k) (int (length pre) + int (length s))
        # tail_ranges (cumsum_from (int (length (pre @ s))) (map (\<lambda>seg. int (length seg)) ss)) kk"
    by (simp add: tail_ranges_def ks)
  from ih have ih1: "\<forall>i \<in> set (concat (tail_ranges (cumsum_from (int (length (pre @ s))) (map (\<lambda>seg. int (length seg)) ss)) kk)).
            0 \<le> i \<and> i < int (length (pre @ concat (s # ss)))"
    and ih2: "map (\<lambda>i. (pre @ concat (s # ss)) ! nat i)
              (concat (tail_ranges (cumsum_from (int (length (pre @ s))) (map (\<lambda>seg. int (length seg)) ss)) kk))
           = concat (map (\<lambda>(seg, k). last_rows k seg) (zip ss kk))"
    by simp_all
  from tail_indices[OF k, of pre "concat ss"]
  have hd2: "map (\<lambda>i. (pre @ concat (s # ss)) ! nat i)
           (arange (int (length pre) + int (length s) - k) (int (length pre) + int (length s)))
         = last_rows k s" by simp
  from tail_indices_range[OF k, of pre "concat ss"]
  have hd1: "\<forall>i \<in> set (arange (int (length pre) + int (length s) - k) (int (length pre) + int (length s))).
           0 \<le> i \<and> i < int (length (pre @ concat (s # ss)))" by simp
  have c1: "\<forall>i \<in> set (concat (tail_ranges (cumsum_from (int (length pre)) (map (\<lambda>seg. int (length seg)) (s # ss))) ks)).
            0 \<le> i \<and> i < int (length (pre @ concat (s # ss)))"
    unfolding unfold using hd1 ih1 by (simp only: concat.simps set_append ball_Un)
  have c2: "map (\<lambda>i. (pre @ concat (s # ss)) ! nat i)
              (concat (tail_ranges (cumsum_from (int (length pre)) (map (\<lambda>seg. int (length seg)) (s # ss))) ks))
           = concat (map (\<lambda>(seg, k). last_rows k seg) (zip (s # ss) ks))"
    unfolding unfold using hd2 ih2 by (simp only: concat.simps map_append ks zip_Cons_Cons list.map prod.case)
  from c1 c2 show ?case by blast
qed

lemma array_tails_ragged:
  assumes "segs \<noteq> []" and "length out_sizes = length segs"
  shows "((\<forall>i < length segs. out_sizes ! i \<le> int (length (segs ! i))) \<longrightarrow>
           array_tails (concat segs) (ragged_indptr segs) out_sizes
             = Inr (concat (map (\<lambda>(seg, k). last_rows k seg) (zip segs out_sizes))))
       \<and> ((\<exists>i < length segs. int (length (segs ! i)) < out_sizes ! i) \<longrightarrow>
           array_tails (concat segs) (ragged_indptr segs) out_sizes
             = Inl (ValueError ''out_sizes must be at most the original sizes.''))"
proof -
  let ?lens = "map (\<lambda>seg. int (length seg)) segs"
  have diff: "np_diff (ragged_indptr segs) = ?lens"
    by (simp add: ragged_indptr_def cumsum_def np_diff_cumsum_from)
  have ag: "any_greater out_sizes (np_diff (ragged_indptr segs))
              = Inr (\<exists>i < length segs. int (length (segs ! i)) < out_sizes ! i)"
    unfolding diff using assms(2) by (auto simp: any_greater_same_length)
  have tl: "tl (ragged_indptr segs) = cumsum_from (int (length ([]::'a list))) ?lens"
    by (simp add: ragged_indptr_def cumsum_def)
  have ne: "zip (tl (ragged_indptr segs)) out_sizes \<noteq> []"
    using assms by (cases segs; cases out_sizes) (simp_all add: ragged_indptr_def cumsum_def)
  show ?thesis
  proof (intro conjI impI)
    assume ok: "\<forall>i < length segs. out_sizes ! i \<le> int (length (segs ! i))"
    then have nogt: "\<not> (\<exists>i < length segs. int (length (segs ! i)) < out_sizes ! i)"
      by (meson not_less)
    from tail_ranges_correct[OF assms(2) ok, of "[]"]
    have rng: "\<forall>i \<in> set (concat (tail_ranges (tl (ragged_indptr segs)) out_sizes)).
                 0 \<le> i \<and> i < int (length (concat segs))"
      and val: "map (\<lambda>i. concat segs ! nat i) (concat (tail_ranges (tl (ragged_indptr segs)) out_sizes))
                 = concat (map (\<lambda>(seg, k). last_rows k seg) (zip segs out_sizes))"
      unfolding tl by simp_all
    have ti: "take_idxs (concat segs) (concat (tail_ranges (tl (ragged_indptr segs)) out_sizes))
                = Inr (concat (map (\<lambda>(seg, k). last_rows k seg) (zip segs out_sizes)))"
    proof -
      have all: "list_all (\<lambda>i. - int (length (concat segs)) \<le> i \<and> i < int (length (concat segs)))
                   (concat (tail_ranges (tl (ragged_indptr segs)) out_sizes))"
        unfolding list_all_iff using rng by force
      have same: "map (\<lambda>i. concat segs ! nat (if i < 0 then i + int (length (concat segs)) else i))
                     (concat (tail_ranges (tl (ragged_indptr segs)) out_sizes))
                  = map (\<lambda>i. concat segs ! nat i) (concat (tail_ranges (tl (ragged_indptr segs)) out_sizes))"
      proof (rule map_cong[OF refl])
        fix i assume "i \<in> set (concat (tail_ranges (tl (ragged_indptr segs)) out_sizes))"
        with rng have "0 \<le> i" by blast
        then show "concat segs ! nat (if i < 0 then i + int (length (concat segs)) else i)
                     = concat segs ! nat i" by simp
      qed
      show ?thesis unfolding take_idxs_def Let_def using all same val by simp
    qed
    show "array_tails (concat segs) (ragged_indptr segs) out_sizes
             = Inr (concat (map (\<lambda>(seg, k). last_rows k seg) (zip segs out_sizes)))"
    proof -
      have agF: "any_greater out_sizes (np_diff (ragged_indptr segs)) = Inr False"
        using ag nogt by simp
      show ?thesis
        unfolding array_tails_def agF Let_def using ne ti
        by (simp add: tail_ranges_def)
    qed
  next
    assume "\<exists>i < length segs. int (length (segs ! i)) < out_sizes ! i"
    then have agT: "any_greater out_sizes (np_diff (ragged_indptr segs)) = Inr True"
      using ag by simp
    show "array_tails (concat segs) (ragged_indptr segs) out_sizes
             = Inl (ValueError ''out_sizes must be at most the original sizes.'')"
      unfolding array_tails_def agT by simp
  qed
qed

text \<open>
  \<^verbatim>\<open>_tail\<close> asks for \<open>min(length, n)\<close> rows of each series, so it does not raise on a
  ragged array of at least one series, and keeps the last \<open>n\<close> rows of every series
  that has more than \<open>n\<close>.
\<close>

lemma tail_last_rows:
  assumes "segs \<noteq> []" and "data proc = concat segs" and "indptr proc = ragged_indptr segs"
  shows "\<exists>proc'. tail proc n = Inr proc'
           \<and> data proc' = concat (map (\<lambda>seg. last_rows (min (int (length seg)) n) seg) segs)
           \<and> indptr proc' = 0 # cumsum (map (\<lambda>seg. min (int (length seg)) n) segs)
           \<and> uids proc' = uids proc \<and> last_times proc' = last_times proc
           \<and> sort_idxs proc' = None"
proof -
  let ?new = "map (\<lambda>seg. min (int (length seg)) n) segs"
  have diff: "np_diff (indptr proc) = map (\<lambda>seg. int (length seg)) segs"
    by (simp add: assms(3) ragged_indptr_def cumsum_def np_diff_cumsum_from)
  have new: "map (\<lambda>d. min d n) (np_diff (indptr proc)) = ?new"
    unfolding diff by (simp add: comp_def)
  have len: "length ?new = length segs" by simp
  have ok: "\<forall>i < length segs. ?new ! i \<le> int (length (segs ! i))" by simp
  have zipmap: "map (\<lambda>(seg, k). last_rows k seg) (zip segs ?new)
                  = map (\<lambda>seg. last_rows (min (int (length seg)) n) seg) segs"
    by (induction segs) simp_all
  have "array_tails (data proc) (indptr proc) ?new
          = Inr (concat (map (\<lambda>seg. last_rows (min (int (length seg)) n) seg) segs))"
    using array_tails_ragged[OF assms(1) len] ok zipmap by (simp only: assms(2,3))
  then show ?thesis by (simp add: tail_def Let_def new)
qed

text \<open>
  Claim C7. For a ragged array of at least one series, encoded as the concatenation of
  the series and the offsets \<open>indptr\<close>, and one truncation size per series: when every
  size is at most the length of its series, \<^verbatim>\<open>_array_tails\<close> returns the last
  \<open>out_sizes[i]\<close> elements of each series, concatenated in series order; when a size
  exceeds the length of its series, it raises \<^verbatim>\<open>ValueError\<close>.
\<close>

theorem array_tails_last_rows:
  assumes "segs \<noteq> []" and "length out_sizes = length segs"
  shows "((\<forall>i < length segs. out_sizes ! i \<le> int (length (segs ! i))) \<longrightarrow>
           array_tails (concat segs) (ragged_indptr segs) out_sizes
             = Inr (concat (map (\<lambda>(seg, k). last_rows k seg) (zip segs out_sizes))))
       \<and> ((\<exists>i < length segs. int (length (segs ! i)) < out_sizes ! i) \<longrightarrow>
           array_tails (concat segs) (ragged_indptr segs) out_sizes
             = Inl (ValueError ''out_sizes must be at most the original sizes.''))"
  by (rule array_tails_ragged[OF assms])

theorem array_tails_last_rows_witness:
  "array_tails ''abcdefgh'' (ragged_indptr three_segs) [2, 0, 3] = Inr ''bcfgh''
   \<and> array_tails ''abcdefgh'' (ragged_indptr three_segs) [2, 3, 3]
       = Inl (ValueError ''out_sizes must be at most the original sizes.'')"
proof -
  have ne: "three_segs \<noteq> []" by (simp add: three_segs_def)
  have l1: "length [2, 0, 3 :: int] = length three_segs" by (simp add: three_segs_def)
  have l2: "length [2, 3, 3 :: int] = length three_segs" by (simp add: three_segs_def)
  have ok: "\<forall>i < length three_segs. [2, 0, 3 :: int] ! i \<le> int (length (three_segs ! i))"
    by (simp add: three_segs_def All_less_Suc nth_Cons')
  have bad: "\<exists>i < length three_segs. int (length (three_segs ! i)) < [2, 3, 3 :: int] ! i"
    by (rule exI[of _ 1]) (simp add: three_segs_def)
  have c: "concat three_segs = ''abcdefgh''" by (simp add: three_segs_def)
  have a: "array_tails ''abcdefgh'' (ragged_indptr three_segs) [2, 0, 3] = Inr ''bcfgh''"
    using array_tails_last_rows[OF ne l1] ok c by (simp add: three_segs_def last_rows_def)
  have b: "array_tails ''abcdefgh'' (ragged_indptr three_segs) [2, 3, 3]
       = Inl (ValueError ''out_sizes must be at most the original sizes.'')"
    using array_tails_last_rows[OF ne l2] bad c by simp
  from a b show ?thesis by blast
qed

section \<open>Properties of the frequency check\<close>

lemma length_as_group_sizes:
  assumes "finite S" and "fst ` set df \<subseteq> S"
  shows "length df = (\<Sum>u \<in> S. length (filter (\<lambda>row. fst row = u) df))"
  using assms(2)
proof (induction df)
  case Nil
  then show ?case by simp
next
  case (Cons r rs)
  then have r: "fst r \<in> S" and rs: "fst ` set rs \<subseteq> S" by auto
  have "(\<Sum>u \<in> S. length (filter (\<lambda>row. fst row = u) (r # rs)))
          = (\<Sum>u \<in> S. (if fst r = u then 1 else 0) + length (filter (\<lambda>row. fst row = u) rs))"
    by (intro sum.cong) auto
  also have "\<dots> = (\<Sum>u \<in> S. (if fst r = u then 1 else 0)) + (\<Sum>u \<in> S. length (filter (\<lambda>row. fst row = u) rs))"
    by (rule sum.distrib)
  also have "(\<Sum>u \<in> S. (if fst r = u then 1 else 0 :: nat)) = 1"
    using assms(1) r by simp
  finally show ?case using Cons.IH[OF rs] by simp
qed

lemma length_df_by_series:
  "length df = (\<Sum>u \<in> set (map fst df). length (times_of df u))"
  using length_as_group_sizes[of "set (map fst df)" df] by (simp add: times_of_def)

lemma length_id_time_grid:
  "length (id_time_grid stepping df freq)
     = (\<Sum>u \<in> set (map fst df).
          length (stepping (Min (set (times_of df u))) (Max (set (times_of df u))) freq))"
proof -
  have "length (id_time_grid stepping df freq)
      = sum_list (map (\<lambda>u. length (stepping (Min (set (times_of df u))) (Max (set (times_of df u))) freq))
                   (remdups (map fst df)))"
    by (simp add: id_time_grid_def length_concat comp_def)
  also have "\<dots> = (\<Sum>u \<in> set (remdups (map fst df)).
          length (stepping (Min (set (times_of df u))) (Max (set (times_of df u))) freq))"
    by (rule sum_list_distinct_conv_sum_set) simp
  finally show ?thesis by simp
qed

lemma sum_le_eq_iff:
  fixes f g :: "'a \<Rightarrow> nat"
  assumes "finite S" and "\<forall>x \<in> S. f x \<le> g x"
  shows "sum f S = sum g S \<longleftrightarrow> (\<forall>x \<in> S. f x = g x)"
proof
  assume eq: "sum f S = sum g S"
  show "\<forall>x \<in> S. f x = g x"
  proof (rule ccontr)
    assume "\<not> (\<forall>x \<in> S. f x = g x)"
    then obtain a where a: "a \<in> S" "f a \<noteq> g a" by blast
    with assms(2) have "f a < g a" by (simp add: le_neq_implies_less)
    with a(1) have "\<exists>x \<in> S. f x < g x" by blast
    with assms have "sum f S < sum g S" by (intro sum_strict_mono_ex1) simp_all
    with eq show False by simp
  qed
next
  assume "\<forall>x \<in> S. f x = g x"
  then show "sum f S = sum g S" by simp
qed

lemma grid_count_missing:
  assumes "\<forall>u \<in> set (map fst rows).
             distinct (times_of rows u)
             \<and> distinct (stepping (Min (set (times_of rows u))) (Max (set (times_of rows u))) f)
             \<and> set (times_of rows u)
                 \<subseteq> set (stepping (Min (set (times_of rows u))) (Max (set (times_of rows u))) f)"
  shows "length rows \<noteq> length (id_time_grid stepping rows f)
         \<longleftrightarrow> (\<exists>u \<in> set (map fst rows).
                \<exists>t \<in> set (stepping (Min (set (times_of rows u))) (Max (set (times_of rows u))) f).
                  t \<notin> set (times_of rows u))"
proof -
  let ?S = "set (map fst rows)"
  let ?g = "\<lambda>u. stepping (Min (set (times_of rows u))) (Max (set (times_of rows u))) f"
  let ?l = "\<lambda>u. length (times_of rows u)"
  let ?d = "\<lambda>u. length (?g u)"
  have le: "\<forall>u \<in> ?S. ?l u \<le> ?d u"
  proof
    fix u assume "u \<in> ?S"
    with assms have d: "distinct (times_of rows u)" "distinct (?g u)"
      and sub: "set (times_of rows u) \<subseteq> set (?g u)" by blast+
    have "card (set (times_of rows u)) \<le> card (set (?g u))"
      using sub by (intro card_mono) simp_all
    then show "?l u \<le> ?d u" using d by (simp add: distinct_card)
  qed
  have eq: "\<And>u. u \<in> ?S \<Longrightarrow> (?l u = ?d u) = (set (times_of rows u) = set (?g u))"
  proof -
    fix u assume "u \<in> ?S"
    with assms have d: "distinct (times_of rows u)" "distinct (?g u)"
      and sub: "set (times_of rows u) \<subseteq> set (?g u)" by blast+
    show "(?l u = ?d u) = (set (times_of rows u) = set (?g u))"
    proof
      assume "?l u = ?d u"
      then have "card (set (times_of rows u)) = card (set (?g u))" using d by (simp add: distinct_card)
      then show "set (times_of rows u) = set (?g u)"
        using sub by (intro card_subset_eq) simp_all
    next
      assume "set (times_of rows u) = set (?g u)"
      then have "card (set (times_of rows u)) = card (set (?g u))" by simp
      then show "?l u = ?d u" using d by (simp add: distinct_card)
    qed
  qed
  have "length rows = length (id_time_grid stepping rows f) \<longleftrightarrow> (\<Sum>u \<in> ?S. ?l u) = (\<Sum>u \<in> ?S. ?d u)"
    by (simp only: length_df_by_series[of rows] length_id_time_grid)
  also have "\<dots> \<longleftrightarrow> (\<forall>u \<in> ?S. ?l u = ?d u)"
    using le by (intro sum_le_eq_iff) simp_all
  also have "\<dots> \<longleftrightarrow> (\<forall>u \<in> ?S. set (times_of rows u) = set (?g u))"
    using eq by blast
  finally have "length rows \<noteq> length (id_time_grid stepping rows f)
      \<longleftrightarrow> (\<exists>u \<in> ?S. set (times_of rows u) \<noteq> set (?g u))" by blast
  also have "\<dots> \<longleftrightarrow> (\<exists>u \<in> ?S. \<exists>t \<in> set (?g u). t \<notin> set (times_of rows u))"
    using assms by blast
  finally show ?thesis .
qed

lemma regular_times_bounds:
  assumes "0 < freq" and "t \<in> set (regular_times a n freq)"
  shows "a \<le> t \<and> t \<le> a + (int n - 1) * freq"
proof -
  from assms(2) obtain k where k: "k < n" "t = a + int k * freq"
    by (auto simp: regular_times_def)
  have "int k * freq \<le> (int n - 1) * freq"
    using k(1) assms(1) by (intro mult_right_mono) simp_all
  moreover have "0 \<le> int k * freq" using assms(1) by simp
  ultimately show ?thesis using k(2) by simp
qed

lemma dense_count:
  assumes "0 < freq" and "1 \<le> n"
  shows "length (dense_times a (a + (int n - 1) * freq) freq) = n"
  using assms by (simp add: dense_times_def)

lemma regular_min_max:
  assumes "0 < freq" and "1 \<le> n"
  shows "Min (set (regular_times a n freq)) = a"
    and "Max (set (regular_times a n freq)) = a + (int n - 1) * freq"
proof -
  have a: "a \<in> set (regular_times a n freq)"
    using assms(2) by (auto simp: regular_times_def intro!: image_eqI[where x = 0])
  have b: "a + (int n - 1) * freq \<in> set (regular_times a n freq)"
    using assms(2) by (auto simp: regular_times_def intro!: image_eqI[where x = "n - 1"])
  show "Min (set (regular_times a n freq)) = a"
    using a regular_times_bounds[OF assms(1)] by (intro Min_eqI) auto
  show "Max (set (regular_times a n freq)) = a + (int n - 1) * freq"
    using b regular_times_bounds[OF assms(1)] by (intro Max_eqI) auto
qed

lemma regular_series_dense:
  assumes "0 < freq" and "1 \<le> n"
  shows "length (dense_times (Min (set (regular_times a n freq))) (Max (set (regular_times a n freq))) freq)
           = length (regular_times a n freq)"
  using dense_count[OF assms] regular_min_max[OF assms] by (simp add: regular_times_def)

lemma gapped_min_max:
  assumes "0 < freq" and "0 < k" and "k + 1 < n"
  shows "Min (set (gapped_times a n freq k)) = a"
    and "Max (set (gapped_times a n freq k)) = a + (int n - 1) * freq"
proof -
  have sub: "set (gapped_times a n freq k) \<subseteq> set (regular_times a n freq)"
    unfolding gapped_times_def using set_take_subset set_drop_subset by fastforce
  have len: "length (regular_times a n freq) = n" by (simp add: regular_times_def)
  have "regular_times a n freq ! 0 \<in> set (take k (regular_times a n freq))"
    using assms(2,3) len by (metis in_set_conv_nth length_take min_less_iff_conj nth_take less_trans less_add_one)
  moreover have "regular_times a n freq ! 0 = a" using assms(2,3) by (simp add: regular_times_def)
  ultimately have a: "a \<in> set (gapped_times a n freq k)" by (simp add: gapped_times_def)
  have idx: "Suc k + (n - Suc (Suc k)) = n - 1" using assms(3) by arith
  have "drop (Suc k) (regular_times a n freq) ! (n - Suc (Suc k)) = regular_times a n freq ! (n - 1)"
    using nth_drop[of "Suc k" "regular_times a n freq" "n - Suc (Suc k)"] assms(3) len
    by (simp only: idx)
  moreover have "n - Suc (Suc k) < length (drop (Suc k) (regular_times a n freq))"
    using assms(3) len by simp
  ultimately have "regular_times a n freq ! (n - 1) \<in> set (drop (Suc k) (regular_times a n freq))"
    by (metis nth_mem)
  moreover have "regular_times a n freq ! (n - 1) = a + (int n - 1) * freq"
    using assms(3) by (simp add: regular_times_def of_nat_diff)
  ultimately have b: "a + (int n - 1) * freq \<in> set (gapped_times a n freq k)"
    by (simp add: gapped_times_def)
  show "Min (set (gapped_times a n freq k)) = a"
    using a sub regular_times_bounds[OF assms(1)] by (intro Min_eqI) auto
  show "Max (set (gapped_times a n freq k)) = a + (int n - 1) * freq"
    using b sub regular_times_bounds[OF assms(1)] by (intro Max_eqI) auto
qed

lemma gapped_series_dense:
  assumes "0 < freq" and "0 < k" and "k + 1 < n"
  shows "length (dense_times (Min (set (gapped_times a n freq k))) (Max (set (gapped_times a n freq k))) freq)
           = Suc (length (gapped_times a n freq k))"
proof -
  have "length (gapped_times a n freq k) = n - 1"
    using assms(2,3) by (simp add: gapped_times_def regular_times_def)
  moreover have "1 \<le> n" using assms(3) by simp
  ultimately show ?thesis
    using dense_count[OF assms(1), of n a] gapped_min_max[OF assms] assms(3) by simp
qed


lemma complete_series_pass:
  assumes "0 < step"
    and "\<forall>u \<in> set (map fst rows). \<exists>a n. 1 \<le> n \<and> times_of rows u = regular_times a n step"
  shows "length rows = length (id_time_grid dense_times rows step)"
proof -
  have "(\<Sum>u \<in> set (map fst rows). length (times_of rows u))
      = (\<Sum>u \<in> set (map fst rows).
          length (dense_times (Min (set (times_of rows u))) (Max (set (times_of rows u))) step))"
  proof (rule sum.cong[OF refl])
    fix u assume "u \<in> set (map fst rows)"
    with assms(2) obtain a n where "1 \<le> n" "times_of rows u = regular_times a n step" by blast
    then show "length (times_of rows u)
      = length (dense_times (Min (set (times_of rows u))) (Max (set (times_of rows u))) step)"
      using regular_series_dense[OF assms(1), of n a] by simp
  qed
  then show ?thesis by (simp only: length_df_by_series[of rows] length_id_time_grid)
qed

lemma gapped_series_fail:
  assumes "0 < step"
    and "\<forall>u \<in> set (map fst rows). \<exists>a n. 1 \<le> n
           \<and> (times_of rows u = regular_times a n step
                \<or> (\<exists>k. 0 < k \<and> k + 1 < n \<and> times_of rows u = gapped_times a n step k))"
    and "\<exists>u \<in> set (map fst rows). \<exists>a n k. 0 < k \<and> k + 1 < n
           \<and> times_of rows u = gapped_times a n step k"
  shows "length rows < length (id_time_grid dense_times rows step)"
proof -
  let ?S = "set (map fst rows)"
  let ?d = "\<lambda>u. length (dense_times (Min (set (times_of rows u))) (Max (set (times_of rows u))) step)"
  let ?l = "\<lambda>u. length (times_of rows u)"
  have le: "\<forall>u \<in> ?S. ?l u \<le> ?d u"
  proof
    fix u assume "u \<in> ?S"
    with assms(2) obtain a n where n: "1 \<le> n"
      and c: "times_of rows u = regular_times a n step
                \<or> (\<exists>k. 0 < k \<and> k + 1 < n \<and> times_of rows u = gapped_times a n step k)" by blast
    from c show "?l u \<le> ?d u"
    proof
      assume "times_of rows u = regular_times a n step"
      then show ?thesis using regular_series_dense[OF assms(1) n, of a] by simp
    next
      assume "\<exists>k. 0 < k \<and> k + 1 < n \<and> times_of rows u = gapped_times a n step k"
      then obtain k where "0 < k" "k + 1 < n" "times_of rows u = gapped_times a n step k" by blast
      then show ?thesis using gapped_series_dense[OF assms(1), of k n a] by simp
    qed
  qed
  from assms(3) obtain u a n k where u: "u \<in> ?S" "0 < k" "k + 1 < n"
    "times_of rows u = gapped_times a n step k" by blast
  then have "?l u < ?d u" using gapped_series_dense[OF assms(1), of k n a] by simp
  with u(1) have "\<exists>u \<in> ?S. ?l u < ?d u" by blast
  with le have "(\<Sum>u \<in> ?S. ?l u) < (\<Sum>u \<in> ?S. ?d u)"
    by (intro sum_strict_mono_ex1) simp_all
  then show ?thesis by (simp only: length_df_by_series[of rows] length_id_time_grid)
qed

text \<open>
  Claim C6, as amended. The frequency check raises exactly when the number of rows of the
  input differs from the number of rows of the grid built from each series' first and
  last timestamp and the frequency step. Among the tables in which no series has a
  duplicated timestamp or a timestamp off its grid, and whatever the stepping of the
  grid as long as it lists a timestamp once, it raises exactly when some series misses a
  timestamp of its grid. For an integer frequency, a set of complete regular series
  passes; and a table in which every series is a complete regular series or one with a
  one-step gap strictly between its first and its last timestamp, at least one of them
  with a gap, fails.
\<close>

theorem validate_freq_row_count:
  "(validate_freq grid df freq = Inl (ValueError freq_error) \<longleftrightarrow> length df \<noteq> length (grid df freq))
   \<and> (validate_freq grid df freq = Inr () \<longleftrightarrow> length df = length (grid df freq))
   \<and> ((\<forall>u \<in> set (map fst rows).
           distinct (times_of rows u)
           \<and> distinct (stepping (Min (set (times_of rows u))) (Max (set (times_of rows u))) f)
           \<and> set (times_of rows u)
               \<subseteq> set (stepping (Min (set (times_of rows u))) (Max (set (times_of rows u))) f))
        \<longrightarrow> (validate_freq (id_time_grid stepping) rows f = Inl (ValueError freq_error)
              \<longleftrightarrow> (\<exists>u \<in> set (map fst rows).
                     \<exists>t \<in> set (stepping (Min (set (times_of rows u))) (Max (set (times_of rows u))) f).
                       t \<notin> set (times_of rows u))))
   \<and> (0 < step \<and> (\<forall>u \<in> set (map fst tbl). \<exists>a n. 1 \<le> n \<and> times_of tbl u = regular_times a n step)
        \<longrightarrow> validate_freq (id_time_grid dense_times) tbl step = Inr ())
   \<and> (0 < step
        \<and> (\<forall>u \<in> set (map fst tbl). \<exists>a n. 1 \<le> n
               \<and> (times_of tbl u = regular_times a n step
                    \<or> (\<exists>k. 0 < k \<and> k + 1 < n \<and> times_of tbl u = gapped_times a n step k)))
        \<and> (\<exists>u \<in> set (map fst tbl). \<exists>a n k. 0 < k \<and> k + 1 < n
               \<and> times_of tbl u = gapped_times a n step k)
        \<longrightarrow> validate_freq (id_time_grid dense_times) tbl step = Inl (ValueError freq_error))"
proof (intro conjI impI)
  show "validate_freq grid df freq = Inl (ValueError freq_error) \<longleftrightarrow> length df \<noteq> length (grid df freq)"
    by (simp add: validate_freq_def)
  show "validate_freq grid df freq = Inr () \<longleftrightarrow> length df = length (grid df freq)"
    by (simp add: validate_freq_def)
next
  assume "\<forall>u \<in> set (map fst rows).
           distinct (times_of rows u)
           \<and> distinct (stepping (Min (set (times_of rows u))) (Max (set (times_of rows u))) f)
           \<and> set (times_of rows u)
               \<subseteq> set (stepping (Min (set (times_of rows u))) (Max (set (times_of rows u))) f)"
  then have "length rows \<noteq> length (id_time_grid stepping rows f)
         \<longleftrightarrow> (\<exists>u \<in> set (map fst rows).
                \<exists>t \<in> set (stepping (Min (set (times_of rows u))) (Max (set (times_of rows u))) f).
                  t \<notin> set (times_of rows u))"
    by (rule grid_count_missing[of rows stepping f])
  then show "validate_freq (id_time_grid stepping) rows f = Inl (ValueError freq_error)
              \<longleftrightarrow> (\<exists>u \<in> set (map fst rows).
                     \<exists>t \<in> set (stepping (Min (set (times_of rows u))) (Max (set (times_of rows u))) f).
                       t \<notin> set (times_of rows u))"
    by (simp add: validate_freq_def)
next
  assume "0 < step \<and> (\<forall>u \<in> set (map fst tbl). \<exists>a n. 1 \<le> n \<and> times_of tbl u = regular_times a n step)"
  then have "length tbl = length (id_time_grid dense_times tbl step)"
    using complete_series_pass[of step tbl] by blast
  then show "validate_freq (id_time_grid dense_times) tbl step = Inr ()"
    by (simp add: validate_freq_def)
next
  assume "0 < step
        \<and> (\<forall>u \<in> set (map fst tbl). \<exists>a n. 1 \<le> n
               \<and> (times_of tbl u = regular_times a n step
                    \<or> (\<exists>k. 0 < k \<and> k + 1 < n \<and> times_of tbl u = gapped_times a n step k)))
        \<and> (\<exists>u \<in> set (map fst tbl). \<exists>a n k. 0 < k \<and> k + 1 < n
               \<and> times_of tbl u = gapped_times a n step k)"
  then have "length tbl < length (id_time_grid dense_times tbl step)"
    using gapped_series_fail[of step tbl] by blast
  then show "validate_freq (id_time_grid dense_times) tbl step = Inl (ValueError freq_error)"
    by (simp add: validate_freq_def)
qed

text \<open>
  Claim C6 as stated fails: the first series of this table has a one-step gap, its
  timestamp 3 is missing, the second series has the timestamp 11 twice, the two row
  counts agree and the check passes.
\<close>

theorem gap_hidden_by_duplicate:
  "times_of gap_and_duplicate 1 = gapped_times 1 4 1 2
   \<and> times_of gap_and_duplicate 2 = [10, 11, 11]
   \<and> length gap_and_duplicate = length (id_time_grid dense_times gap_and_duplicate 1)
   \<and> validate_freq (id_time_grid dense_times) gap_and_duplicate 1 = Inr ()"
  by code_simp

theorem validate_freq_row_count_witness:
  "validate_freq (id_time_grid dense_times) two_complete 1 = Inr ()
   \<and> length two_complete = length (id_time_grid dense_times two_complete 1)
   \<and> validate_freq (id_time_grid dense_times) one_gap 1 = Inl (ValueError freq_error)
   \<and> length one_gap \<noteq> length (id_time_grid dense_times one_gap 1)
   \<and> 3 \<in> set (dense_times (Min (set (times_of one_gap 1))) (Max (set (times_of one_gap 1))) 1)
   \<and> 3 \<notin> set (times_of one_gap 1)
   \<and> validate_freq (id_time_grid dense_times) two_gaps 1 = Inl (ValueError freq_error)"
proof -
  have ids1: "set (map fst two_complete) = {1, 2}" by (simp add: two_complete_def)
  have ids2: "set (map fst one_gap) = {1, 2}" by (simp add: one_gap_def)
  have ids3: "set (map fst two_gaps) = {1, 2}" by (simp add: two_gaps_def)
  have r1: "times_of two_complete 1 = regular_times 1 4 1" by code_simp
  have r2: "times_of two_complete 2 = regular_times 10 2 1" by code_simp
  have g1: "times_of one_gap 1 = gapped_times 1 4 1 2" by code_simp
  have g2: "times_of one_gap 2 = regular_times 10 2 1" by code_simp
  have h1: "times_of two_gaps 1 = gapped_times 1 4 1 2" by code_simp
  have h2: "times_of two_gaps 2 = gapped_times 10 3 1 1" by code_simp
  have pos: "(0::int) < 1" by simp
  note t1 = validate_freq_row_count[of "id_time_grid dense_times" two_complete 1
                one_gap dense_times 1 1 two_complete]
  note t2 = validate_freq_row_count[of "id_time_grid dense_times" one_gap 1
                one_gap dense_times 1 1 one_gap]
  note t3 = validate_freq_row_count[of "id_time_grid dense_times" two_gaps 1
                one_gap dense_times 1 1 two_gaps]
  have e1: "\<exists>a n. 1 \<le> n \<and> times_of two_complete 1 = regular_times a n 1"
    using r1 by (intro exI[of _ 1] exI[of _ 4]) simp
  have e2: "\<exists>a n. 1 \<le> n \<and> times_of two_complete 2 = regular_times a n 1"
    using r2 by (intro exI[of _ 10] exI[of _ 2]) simp
  have all1: "\<forall>u \<in> set (map fst two_complete). \<exists>a n. 1 \<le> n \<and> times_of two_complete u = regular_times a n 1"
    unfolding ids1 using e1 e2 by blast
  have pass: "validate_freq (id_time_grid dense_times) two_complete 1 = Inr ()"
    using t1 pos all1 by blast
  have m1: "Min (set (times_of one_gap 1)) = 1" "Max (set (times_of one_gap 1)) = 4" by code_simp+
  have m2: "Min (set (times_of one_gap 2)) = 10" "Max (set (times_of one_gap 2)) = 11" by code_simp+
  have d1: "dense_times 1 4 1 = [1, 2, 3, 4]" "dense_times 10 11 1 = [10, 11]" by code_simp+
  have v1: "times_of one_gap 1 = [1, 2, 4]" "times_of one_gap 2 = [10, 11]" by code_simp+
  have clean: "\<forall>u \<in> set (map fst one_gap).
           distinct (times_of one_gap u)
           \<and> distinct (dense_times (Min (set (times_of one_gap u))) (Max (set (times_of one_gap u))) 1)
           \<and> set (times_of one_gap u)
               \<subseteq> set (dense_times (Min (set (times_of one_gap u))) (Max (set (times_of one_gap u))) 1)"
  proof -
    have "distinct (times_of one_gap 1)
           \<and> distinct (dense_times (Min (set (times_of one_gap 1))) (Max (set (times_of one_gap 1))) 1)
           \<and> set (times_of one_gap 1)
               \<subseteq> set (dense_times (Min (set (times_of one_gap 1))) (Max (set (times_of one_gap 1))) 1)"
      unfolding m1 d1 unfolding v1 by simp
    moreover have "distinct (times_of one_gap 2)
           \<and> distinct (dense_times (Min (set (times_of one_gap 2))) (Max (set (times_of one_gap 2))) 1)
           \<and> set (times_of one_gap 2)
               \<subseteq> set (dense_times (Min (set (times_of one_gap 2))) (Max (set (times_of one_gap 2))) 1)"
      unfolding m2 d1 unfolding v1 by simp
    ultimately show ?thesis unfolding ids2 by blast
  qed
  have in3: "3 \<in> set (dense_times (Min (set (times_of one_gap 1))) (Max (set (times_of one_gap 1))) 1)"
    unfolding m1 d1 by simp
  have out3: "3 \<notin> set (times_of one_gap 1)" unfolding v1 by simp
  have one: "(1::nat) \<in> set (map fst one_gap)" unfolding ids2 by simp
  have missing: "\<exists>u \<in> set (map fst one_gap).
       \<exists>t \<in> set (dense_times (Min (set (times_of one_gap u))) (Max (set (times_of one_gap u))) 1).
         t \<notin> set (times_of one_gap u)"
    using one in3 out3 by blast
  have fail: "validate_freq (id_time_grid dense_times) one_gap 1 = Inl (ValueError freq_error)"
    using t2 clean missing by blast
  have k1: "\<exists>a n. 1 \<le> n \<and> (times_of two_gaps 1 = regular_times a n 1
                \<or> (\<exists>k. 0 < k \<and> k + 1 < n \<and> times_of two_gaps 1 = gapped_times a n 1 k))"
    using h1 by (intro exI[of _ 1] exI[of _ 4] conjI disjI2 exI[of _ 2]) simp_all
  have k2: "\<exists>a n. 1 \<le> n \<and> (times_of two_gaps 2 = regular_times a n 1
                \<or> (\<exists>k. 0 < k \<and> k + 1 < n \<and> times_of two_gaps 2 = gapped_times a n 1 k))"
    using h2 by (intro exI[of _ 10] exI[of _ 3] conjI disjI2 exI[of _ 1]) simp_all
  have all3: "\<forall>u \<in> set (map fst two_gaps). \<exists>a n. 1 \<le> n
               \<and> (times_of two_gaps u = regular_times a n 1
                    \<or> (\<exists>k. 0 < k \<and> k + 1 < n \<and> times_of two_gaps u = gapped_times a n 1 k))"
    unfolding ids3 using k1 k2 by blast
  have some3: "\<exists>u \<in> set (map fst two_gaps). \<exists>a n k. 0 < k \<and> k + 1 < n
               \<and> times_of two_gaps u = gapped_times a n 1 k"
  proof -
    have "0 < (2::nat) \<and> 2 + 1 < (4::nat) \<and> times_of two_gaps 1 = gapped_times 1 4 1 2"
      using h1 by simp
    then have "\<exists>a n k. 0 < k \<and> k + 1 < n \<and> times_of two_gaps 1 = gapped_times a n 1 k"
      by blast
    moreover have "(1::nat) \<in> set (map fst two_gaps)" unfolding ids3 by simp
    ultimately show ?thesis by blast
  qed
  have fail2: "validate_freq (id_time_grid dense_times) two_gaps 1 = Inl (ValueError freq_error)"
    using t3 pos all3 some3 by blast
  have "length two_complete = length (id_time_grid dense_times two_complete 1)"
    using t1 pass by blast
  moreover have "length one_gap \<noteq> length (id_time_grid dense_times one_gap 1)"
    using t2 fail by blast
  ultimately show ?thesis using pass fail fail2 in3 out3 by blast
qed

section \<open>Properties of the level and quantile conversion\<close>



























end
